(* ===== verification/Prelude.thy ===== *)
theory Prelude
  imports Main "HOL-Library.Word" "HOL-Library.Multiset" "HOL-Library.Monad_Syntax"
begin

text \<open>
  Shared vocabulary of the HAMT development: the machine types of the Rust source
  (\<open>usize\<close> and \<open>u64\<close> on a 64-bit target, \<open>u8\<close>), the panics and undefined
  behaviours the model makes explicit as values of \<open>error\<close>, the population count that
  \<open>usize::count_ones\<close> computes, and the list facts that the free list and the
  child-array code of \<open>lib.rs\<close> share: insertion at a position, and Rust's
  \<open>slice::swap\<close>.
\<close>

unbundle bit_operations_syntax

type_synonym usize = "64 word"
type_synonym u64 = "64 word"
type_synonym u8 = "8 word"

text \<open>
  Every way the Rust code can stop abnormally: an array index out of range
  (\<open>self.0[len]\<close> in \<open>free_list.rs\<close>), a failed \<open>assert!\<close>, a write into a
  buffer that was already deallocated, the dereference of a null pointer, a read past
  the end of an allocation (undefined behaviour in Rust, here a value), and
  \<open>unreachable!()\<close>.
\<close>

datatype error =
    Index_out_of_bounds
  | Assertion_failed
  | Use_after_free
  | Null_dereference
  | Undefined_behaviour
  | Unreachable

named_theorems list_model "list facts shared by the child-array and free-list proofs"

definition count_ones :: "'a::len word \<Rightarrow> nat" where
  "count_ones w = length (filter (bit w) [0..<LENGTH('a)])"

text \<open>Insertion of \<open>x\<close> at position \<open>p\<close>: the reference for the shifting loop of \<open>insert\<close>.\<close>

definition insert_at :: "nat \<Rightarrow> 'a \<Rightarrow> 'a list \<Rightarrow> 'a list" where
  "insert_at p x xs = take p xs @ x # drop p xs"

text \<open>\<open>slice::swap(i, j)\<close>, for indices in range (the only way the source calls it).\<close>

definition slice_swap :: "'a list \<Rightarrow> nat \<Rightarrow> nat \<Rightarrow> 'a list" where
  "slice_swap xs i j = xs[i := xs ! j, j := xs ! i]"

text \<open>Rust's integer formatting: \<open>{}\<close> (radix 10) and \<open>{:b}\<close> (radix 2), no leading zeros.\<close>

function nat_digits :: "nat \<Rightarrow> nat \<Rightarrow> nat list" where
  "nat_digits b n = (if n < b \<or> b < 2 then [n] else nat_digits b (n div b) @ [n mod b])"
  by pat_completeness auto
termination
  by (relation "measure snd") auto

definition fmt_radix :: "nat \<Rightarrow> nat \<Rightarrow> string" where
  "fmt_radix b n = map (\<lambda>d. char_of (48 + d)) (nat_digits b n)"

lemma count_ones_card: "count_ones (w :: 'a::len word) = card {n. bit w n}"
proof -
  have "{n. bit w n} = {n. n < LENGTH('a) \<and> bit w n}"
    by (auto dest: bit_imp_le_length)
  moreover have "{i. i < LENGTH('a) \<and> bit w ([0..<LENGTH('a)] ! i)} = {n. n < LENGTH('a) \<and> bit w n}"
    by auto
  ultimately show ?thesis
    by (simp add: count_ones_def length_filter_conv_card)
qed

lemma bit_usize_lt [dest]: "bit (w :: usize) j \<Longrightarrow> j < 64"
  using bit_imp_le_length [of w j] by simp

lemma usize_eq_0_iff: "((w :: usize) = 0) = (\<forall>j. \<not> bit w j)"
proof
  assume "\<forall>j. \<not> bit w j"
  then show "w = 0" by (intro bit_word_eqI) simp
qed simp

lemma length_insert_at [simp, list_model]:
  "p \<le> length xs \<Longrightarrow> length (insert_at p x xs) = Suc (length xs)"
  by (simp add: insert_at_def)

lemma nth_insert_at [list_model]:
  assumes "p \<le> length xs" "q \<le> length xs"
  shows "insert_at p x xs ! q = (if q < p then xs ! q else if q = p then x else xs ! (q - 1))"
  using assms by (auto simp: insert_at_def nth_append min_def)

lemma mset_insert_at [simp, list_model]:
  "mset (insert_at p x xs) = add_mset x (mset xs)"
proof -
  have "mset (take p xs) + mset (drop p xs) = mset xs"
    by (metis append_take_drop_id mset_append)
  then show ?thesis by (simp add: insert_at_def)
qed

lemma set_insert_at [simp, list_model]: "set (insert_at p x xs) = insert x (set xs)"
  by (metis mset_insert_at set_mset_add_mset_insert set_mset_mset)

lemma length_slice_swap [simp, list_model]: "length (slice_swap xs i j) = length xs"
  by (simp add: slice_swap_def)

lemma mset_nth_concat_map [list_model]:
  "n < length xs \<Longrightarrow> mset (f (xs ! n)) \<subseteq># mset (concat (map f xs))"
proof (induction xs arbitrary: n)
  case Nil
  then show ?case by simp
next
  case (Cons a xs)
  show ?case
  proof (cases n)
    case 0
    then show ?thesis by simp
  next
    case (Suc m)
    with Cons have "mset (f (xs ! m)) \<subseteq># mset (concat (map f xs))"
      by simp
    then have "mset (f (xs ! m)) \<subseteq># mset (f a) + mset (concat (map f xs))"
      by (rule subset_mset.order_trans) (rule mset_subset_eq_add_right)
    with Suc show ?thesis by simp
  qed
qed

lemma concat_map_list_update [list_model]:
  "n < length xs \<Longrightarrow>
   mset (concat (map f (xs[n := y]))) = mset (concat (map f xs)) - mset (f (xs ! n)) + mset (f y)"
proof (induction xs arbitrary: n)
  case Nil
  then show ?case by simp
next
  case (Cons a xs)
  show ?case
  proof (cases n)
    case 0
    then show ?thesis by simp
  next
    case (Suc m)
    with Cons.prems have m: "m < length xs" by simp
    then have "mset (f (xs ! m)) \<subseteq># mset (concat (map f xs))"
      by (rule mset_nth_concat_map)
    then have "mset (f a) + mset (concat (map f xs)) - mset (f (xs ! m)) =
               mset (f a) + (mset (concat (map f xs)) - mset (f (xs ! m)))"
      by (rule multiset_diff_union_assoc)
    with Cons.IH [OF m] Suc show ?thesis
      by (simp add: add.assoc)
  qed
qed

lemma map_of_concat_none:
  assumes "\<And>n'. n' < length xs \<Longrightarrow> q \<notin> fst ` set (f (xs ! n'))"
  shows "map_of (concat (map f xs)) q = None"
proof -
  have "q \<notin> fst ` set (concat (map f xs))"
  proof
    assume "q \<in> fst ` set (concat (map f xs))"
    then obtain x where x: "x \<in> set xs" "q \<in> fst ` set (f x)" by auto
    then obtain n' where "n' < length xs" "xs ! n' = x" by (auto simp: in_set_conv_nth)
    with assms x(2) show False by auto
  qed
  then show ?thesis by (simp add: map_of_eq_None_iff)
qed

lemma map_of_concat_nth:
  assumes "n < length xs" "\<And>n'. n' < length xs \<Longrightarrow> n' \<noteq> n \<Longrightarrow> q \<notin> fst ` set (f (xs ! n'))"
  shows "map_of (concat (map f xs)) q = map_of (f (xs ! n)) q"
  using assms
proof (induction xs arbitrary: n)
  case Nil
  then show ?case by simp
next
  case (Cons x xs)
  show ?case
  proof (cases n)
    case 0
    have "map_of (concat (map f xs)) q = None"
      by (rule map_of_concat_none) (use Cons.prems(2) [of "Suc _"] 0 in auto)
    with 0 show ?thesis by (simp add: map_add_def split: option.split)
  next
    case (Suc m)
    have "q \<notin> fst ` set (f x)" using Cons.prems(2) [of 0] Suc by auto
    then have "map_of (f x) q = None" by (simp add: map_of_eq_None_iff)
    moreover have "map_of (concat (map f xs)) q = map_of (f (xs ! m)) q"
    proof (rule Cons.IH)
      show "m < length xs" using Cons.prems(1) Suc by simp
    next
      fix n' assume "n' < length xs" "n' \<noteq> m"
      then show "q \<notin> fst ` set (f (xs ! n'))" using Cons.prems(2) [of "Suc n'"] Suc by simp
    qed
    ultimately show ?thesis using Suc by (simp add: map_add_def)
  qed
qed

lemma slice_swap_adjacent:
  "slice_swap (zs @ a # b # ws) (length zs) (Suc (length zs)) = zs @ b # a # ws"
  by (simp add: slice_swap_def list_update_append nth_append)

lemma distinct_concat_nth:
  assumes "\<And>i. i < length xs \<Longrightarrow> distinct (xs ! i)"
    and "\<And>i j. i < j \<Longrightarrow> j < length xs \<Longrightarrow> set (xs ! i) \<inter> set (xs ! j) = {}"
  shows "distinct (concat xs)"
  using assms
proof (induction xs)
  case Nil
  then show ?case by simp
next
  case (Cons x xs)
  have "distinct (concat xs)"
    by (rule Cons.IH) (use Cons.prems(1) [of "Suc _"] Cons.prems(2) [of "Suc _" "Suc _"] in auto)
  moreover have "set x \<inter> set (concat xs) = {}"
  proof -
    have "set x \<inter> set (xs ! j) = {}" if "j < length xs" for j
      using Cons.prems(2) [of 0 "Suc j"] that by simp
    then have "\<forall>y \<in> set xs. set x \<inter> set y = {}" by (metis in_set_conv_nth)
    then show ?thesis by auto
  qed
  ultimately show ?case using Cons.prems(1) [of 0] by simp
qed

lemma fold_max_le: "(\<forall>x \<in> set xs. x \<le> b) \<Longrightarrow> a \<le> b \<Longrightarrow> fold max xs a \<le> (b :: nat)"
proof (induction xs arbitrary: a)
  case (Cons x xs)
  then have "max x a \<le> b" by (simp add: max_def)
  with Cons show ?case by simp
qed simp

lemma two_distinct_keys:
  assumes "distinct (map fst xs)" "2 \<le> length xs"
  obtains k1 v1 k2 v2 where "(k1, v1) \<in> set xs" "(k2, v2) \<in> set xs" "k1 \<noteq> k2"
proof -
  obtain a b ys where xs: "xs = a # b # ys" using assms(2) by (cases xs; cases "tl xs") auto
  with assms(1) show ?thesis using that [of "fst a" "snd a" "fst b" "snd b"] by auto
qed

lemma ball_pairs_mono:
  "A \<subseteq> B \<Longrightarrow> \<forall>a \<in> B. \<forall>b \<in> B. P a b \<Longrightarrow> \<forall>a \<in> A. \<forall>b \<in> A. P a b"
  by blast

end
