(* ===== verification/HashStream.thy ===== *)
theory HashStream
  imports Prelude
begin

text \<open>
  The index stream of \<open>src/hash_stream.rs\<close>. A \<open>HashStream\<close> owns a hasher that has
  already been fed the key, a 64-bit reservoir holding the unconsumed bits of the last
  digest, and the count \<open>eaten\<close> of bits consumed from that digest. Each call of
  \<open>next\<close> returns the next 6-bit group, low bits first; when fewer than 6 bits are
  left, the hasher is fed the marker byte 1, finished again, and the missing high bits
  of the group come from the new digest.

  The hasher (the \<open>std::hash::Hasher\<close> the code only calls) is modelled by its
  contract: \<open>finish\<close> is a function of the bytes written so far. \<open>h_digest\<close>
  gives the digest of the key's bytes followed by the extra bytes \<open>h_fed\<close>.

  The main theorem, \<open>hs_nth_bit\<close>, says that the \<open>n\<close>-th value of the stream
  consists of the bits \<open>6n .. 6n+5\<close> of the infinite bit string obtained by
  concatenating the digests after 0, 1, 2, ... marker bytes, low bits first; so the
  stream is never misaligned and never runs out. The \<open>u8\<close> arithmetic on \<open>eaten\<close>
  never wraps (\<open>hs_inv\<close>: at most 64 bits are eaten), and every value is below 64.
\<close>

record hasher =
  h_digest :: "u8 list \<Rightarrow> u64"
  h_fed :: "u8 list"

definition hasher_write_u8 :: "hasher \<Rightarrow> u8 \<Rightarrow> hasher" where
  "hasher_write_u8 h b = h\<lparr>h_fed := h_fed h @ [b]\<rparr>"

definition hasher_finish :: "hasher \<Rightarrow> u64" where
  "hasher_finish h = h_digest h (h_fed h)"

definition BITS_IN_BYTE :: nat where
  "BITS_IN_BYTE = 8"

definition BITS_IN_POINTER :: nat where
  "BITS_IN_POINTER = 8 * BITS_IN_BYTE"

definition bits_to_represent_pointer :: nat where
  "bits_to_represent_pointer =
     length (takeWhile (\<lambda>k. \<not> bit (of_nat BITS_IN_POINTER :: usize) k) [0..<64])"

record hash_stream =
  hasher :: hasher
  reservoy :: u64
  eaten :: u8

definition hs_new :: "hasher \<Rightarrow> hash_stream" where
  "hs_new h = \<lparr>hasher = h, reservoy = hasher_finish h, eaten = 0\<rparr>"

definition hs_next :: "hash_stream \<Rightarrow> u8 \<times> hash_stream" where
  "hs_next s =
     (let bits = (of_nat bits_to_represent_pointer :: u8);
          limit = 64 - bits
      in if eaten s > limit then
           (let need = eaten s - limit;
                left = bits - need;
                leftovers = reservoy s;
                h' = hasher_write_u8 (hasher s) 1;
                r = hasher_finish h';
                mask = push_bit (unat need) 1 - 1;
                needed = r AND mask
            in (ucast (push_bit (unat left) needed OR leftovers),
                s\<lparr>hasher := h', reservoy := drop_bit (unat need) r, eaten := need\<rparr>))
         else
           (let mask = push_bit (unat bits) 1 - 1;
                result = reservoy s AND mask
            in (ucast result,
                s\<lparr>reservoy := drop_bit (unat bits) (reservoy s), eaten := eaten s + bits\<rparr>)))"

text \<open>\<open>Iterator::take(n).collect()\<close>: the first \<open>n\<close> values.\<close>

fun hs_take :: "nat \<Rightarrow> hash_stream \<Rightarrow> u8 list" where
  "hs_take 0 s = []"
| "hs_take (Suc n) s = (let (x, s') = hs_next s in x # hs_take n s')"

text \<open>\<open>Iterator::skip(n)\<close>: the stream after \<open>n\<close> draws, and the \<open>n\<close>-th value.\<close>

definition hs_skip :: "nat \<Rightarrow> hash_stream \<Rightarrow> hash_stream" where
  "hs_skip n s = ((snd \<circ> hs_next) ^^ n) s"

definition hs_nth :: "hash_stream \<Rightarrow> nat \<Rightarrow> u8" where
  "hs_nth s n = fst (hs_next (hs_skip n s))"

subsection \<open>The stream the code is meant to produce\<close>

text \<open>
  The digest after \<open>k\<close> marker bytes, and bit \<open>p\<close> of the concatenation of all
  digests. \<open>hs_rel h k s\<close> relates a stream state to that string: its hasher has
  been fed \<open>k\<close> markers, at most 64 bits of the current digest are eaten and the
  reservoir holds exactly the uneaten ones; the stream then stands at bit
  \<open>64 k + eaten\<close>.
\<close>

definition marker_writes :: "nat \<Rightarrow> hasher \<Rightarrow> hasher" where
  "marker_writes k h = ((\<lambda>h. hasher_write_u8 h 1) ^^ k) h"

definition digest :: "hasher \<Rightarrow> nat \<Rightarrow> u64" where
  "digest h k = hasher_finish (marker_writes k h)"

definition stream_bit :: "hasher \<Rightarrow> nat \<Rightarrow> bool" where
  "stream_bit h p = bit (digest h (p div 64)) (p mod 64)"

definition hs_rel :: "hasher \<Rightarrow> nat \<Rightarrow> hash_stream \<Rightarrow> bool" where
  "hs_rel h k s =
     (hasher s = marker_writes k h \<and> unat (eaten s) \<le> 64 \<and>
      reservoy s = drop_bit (unat (eaten s)) (digest h k))"

text \<open>The fixture of the test \<open>hash_stream\<close>: a hasher whose successive digests are four constants.\<close>

definition test_hasher :: hasher where
  "test_hasher = \<lparr>h_digest = (\<lambda>xs. [12864849482496356481, 10759438783229431088,
     9365127061860606325, 768323854795946145] ! length xs), h_fed = []\<rparr>"

text \<open>
  Two hash builders for concrete runs: \<open>demo_state\<close> digests key \<open>k\<close> to \<open>k\<close> (plus
  one per re-hash byte), so keys 1 and 65 share their first index and differ in the
  second; \<open>collide_state\<close> ignores the key, so all keys have the same stream.
\<close>

definition demo_state :: "nat \<Rightarrow> hasher" where
  "demo_state k = \<lparr>h_digest = (\<lambda>xs. of_nat (k + length xs)), h_fed = []\<rparr>"

definition collide_state :: "nat \<Rightarrow> hasher" where
  "collide_state k = \<lparr>h_digest = (\<lambda>xs. of_nat (length xs)), h_fed = []\<rparr>"

subsection \<open>The two branches of next\<close>

lemma bits_to_represent_pointer_6: "bits_to_represent_pointer = 6"
  by code_simp

lemma hs_bits: "(of_nat bits_to_represent_pointer :: u8) = 6"
  by (simp add: bits_to_represent_pointer_6)

lemma hs_next_plain:
  assumes "unat (eaten s) \<le> 58"
  shows "hs_next s = (ucast (reservoy s AND mask 6),
                      s\<lparr>reservoy := drop_bit 6 (reservoy s), eaten := eaten s + 6\<rparr>)"
proof -
  have "\<not> (58 :: u8) < eaten s"
    using assms by (simp add: word_less_nat_alt)
  then show ?thesis
    by (simp add: hs_next_def hs_bits Let_def mask_eq_exp_minus_1)
qed

lemma hs_next_rehash:
  assumes "58 < unat (eaten s)" "unat (eaten s) \<le> 64"
  shows "hs_next s =
    (ucast (push_bit (64 - unat (eaten s))
              (hasher_finish (hasher_write_u8 (hasher s) 1) AND mask (unat (eaten s) - 58))
            OR reservoy s),
     s\<lparr>hasher := hasher_write_u8 (hasher s) 1,
       reservoy := drop_bit (unat (eaten s) - 58) (hasher_finish (hasher_write_u8 (hasher s) 1)),
       eaten := eaten s - 58\<rparr>)"
proof -
  have lt: "(58 :: u8) < eaten s"
    using assms by (simp add: word_less_nat_alt)
  then have need: "unat (eaten s - 58) = unat (eaten s) - 58"
    by (simp add: unat_sub less_imp_le)
  have left: "unat (64 - eaten s) = 64 - unat (eaten s)"
    using assms by (subst unat_sub) (simp_all add: word_le_nat_alt)
  show ?thesis
    using lt by (simp add: hs_next_def hs_bits Let_def mask_eq_exp_minus_1 need left)
qed
lemma stream_bit_same: "m < 64 \<Longrightarrow> stream_bit h (64 * k + m) = bit (digest h k) m"
  by (simp add: stream_bit_def)

lemma stream_bit_next:
  "64 \<le> m \<Longrightarrow> m < 128 \<Longrightarrow> stream_bit h (64 * k + m) = bit (digest h (Suc k)) (m - 64)"
proof -
  assume "64 \<le> m" "m < 128"
  then have "64 * k + m = 64 * Suc k + (m - 64)" and "m - 64 < 64" by simp_all
  then show ?thesis by (simp only: stream_bit_same)
qed

lemma digest_Suc: "hasher_finish (hasher_write_u8 (marker_writes k h) 1) = digest h (Suc k)"
  by (simp add: digest_def marker_writes_def)

lemma hs_step_plain:
  assumes rel: "hs_rel h k s" and e: "unat (eaten s) \<le> 58" and nx: "hs_next s = (x, s')"
  shows "bit x b = (b < 6 \<and> stream_bit h (64 * k + unat (eaten s) + b))"
    and "hs_rel h k s'" and "unat (eaten s') = unat (eaten s) + 6"
proof -
  from nx e have x: "x = ucast (reservoy s AND mask 6)"
    and s': "s' = s\<lparr>reservoy := drop_bit 6 (reservoy s), eaten := eaten s + 6\<rparr>"
    by (simp_all add: hs_next_plain)
  have "unat (eaten s + 6) = unat (eaten s) + 6"
    using e by (simp add: unat_add_lem [THEN iffD1])
  then show eat: "unat (eaten s') = unat (eaten s) + 6" by (simp add: s')
  show "bit x b = (b < 6 \<and> stream_bit h (64 * k + unat (eaten s) + b))"
  proof (cases "b < 6")
    case True
    with e have "unat (eaten s) + b < 64" by simp
    then have "stream_bit h (64 * k + unat (eaten s) + b) = bit (digest h k) (unat (eaten s) + b)"
      by (simp only: add.assoc stream_bit_same)
    with True rel show ?thesis
      by (simp add: x hs_rel_def bit_ucast_iff bit_and_iff bit_mask_iff bit_drop_bit_eq)
  next
    case False
    then show ?thesis by (simp add: x bit_ucast_iff bit_and_iff bit_mask_iff)
  qed
  show "hs_rel h k s'"
    using rel eat e by (simp add: hs_rel_def s' drop_bit_drop_bit add.commute)
qed
lemma unat_eaten_minus_58: "58 < unat (e :: u8) \<Longrightarrow> unat (e - 58) = unat e - 58"
  by (simp add: unat_sub less_imp_le word_less_nat_alt)

lemmas stream_word_bits = bit_ucast_iff bit_or_iff bit_and_iff bit_push_bit_iff bit_mask_iff bit_drop_bit_eq

lemma stream_bit_window:
  "e + b < 128 \<Longrightarrow> stream_bit h (64 * k + e + b) =
     (if e + b < 64 then bit (digest h k) (e + b) else bit (digest h (Suc k)) (e + b - 64))"
  by (simp only: add.assoc) (simp add: stream_bit_same stream_bit_next)

lemma rehash_bit:
  assumes "58 < e" "e \<le> 64"
  shows "bit (ucast (push_bit (64 - e) ((d2 :: u64) AND mask (e - 58)) OR drop_bit e (d1 :: u64)) :: u8) b =
         (b < 6 \<and> (if e + b < 64 then bit d1 (e + b) else bit d2 (e + b - 64)))"
proof (cases "e + b < 64")
  case True
  with assms show ?thesis by (auto simp: stream_word_bits)
next
  case False
  then have "\<not> bit d1 (e + b)" by auto
  moreover have "b - (64 - e) = e + b - 64" using assms by simp
  ultimately show ?thesis using False assms by (auto simp: stream_word_bits)
qed

lemma hs_step_rehash:
  assumes rel: "hs_rel h k s" and e: "58 < unat (eaten s)" and nx: "hs_next s = (x, s')"
  shows "bit x b = (b < 6 \<and> stream_bit h (64 * k + unat (eaten s) + b))"
    and "hs_rel h (Suc k) s'" and "64 * Suc k + unat (eaten s') = 64 * k + unat (eaten s) + 6"
proof -
  have le: "unat (eaten s) \<le> 64" and hs: "hasher s = marker_writes k h"
    and res: "reservoy s = drop_bit (unat (eaten s)) (digest h k)"
    using rel by (simp_all add: hs_rel_def)
  from nx hs_next_rehash [OF e le] hs
  have x: "x = ucast (push_bit (64 - unat (eaten s)) (digest h (Suc k) AND mask (unat (eaten s) - 58))
                OR reservoy s)"
    and s': "s' = s\<lparr>hasher := hasher_write_u8 (marker_writes k h) 1,
                     reservoy := drop_bit (unat (eaten s) - 58) (digest h (Suc k)),
                     eaten := eaten s - 58\<rparr>"
    by (simp_all add: digest_Suc)
  have eat: "unat (eaten s') = unat (eaten s) - 58"
    using e by (simp add: s' unat_eaten_minus_58)
  then show "64 * Suc k + unat (eaten s') = 64 * k + unat (eaten s) + 6"
    using e le by simp
  show "hs_rel h (Suc k) s'"
    using eat le by (simp add: hs_rel_def s' marker_writes_def)
  show "bit x b = (b < 6 \<and> stream_bit h (64 * k + unat (eaten s) + b))"
    using rehash_bit [OF e le, of "digest h (Suc k)" "digest h k" b] le
    by (auto simp: x res stream_bit_window)
qed

lemma hs_step:
  assumes "hs_rel h k s" "hs_next s = (x, s')"
  shows "bit x b = (b < 6 \<and> stream_bit h (64 * k + unat (eaten s) + b))"
    and "\<exists>k'. hs_rel h k' s' \<and> 64 * k' + unat (eaten s') = 64 * k + unat (eaten s) + 6"
proof -
  show "bit x b = (b < 6 \<and> stream_bit h (64 * k + unat (eaten s) + b))"
  proof (cases "unat (eaten s) \<le> 58")
    case True
    show ?thesis by (rule hs_step_plain(1) [OF assms(1) True assms(2)])
  next
    case False
    then have e: "58 < unat (eaten s)" by simp
    show ?thesis by (rule hs_step_rehash(1) [OF assms(1) e assms(2)])
  qed
  show "\<exists>k'. hs_rel h k' s' \<and> 64 * k' + unat (eaten s') = 64 * k + unat (eaten s) + 6"
  proof (cases "unat (eaten s) \<le> 58")
    case True
    have "hs_rel h k s'" by (rule hs_step_plain(2) [OF assms(1) True assms(2)])
    moreover have "unat (eaten s') = unat (eaten s) + 6"
      by (rule hs_step_plain(3) [OF assms(1) True assms(2)])
    ultimately show ?thesis by auto
  next
    case False
    then have e: "58 < unat (eaten s)" by simp
    have "hs_rel h (Suc k) s'" by (rule hs_step_rehash(2) [OF assms(1) e assms(2)])
    moreover have "64 * Suc k + unat (eaten s') = 64 * k + unat (eaten s) + 6"
      by (rule hs_step_rehash(3) [OF assms(1) e assms(2)])
    ultimately show ?thesis by blast
  qed
qed

lemma hs_rel_new: "hs_rel h 0 (hs_new h)"
  by (simp add: hs_rel_def hs_new_def digest_def marker_writes_def)

lemma hs_skip_Suc: "hs_skip (Suc n) s = snd (hs_next (hs_skip n s))"
  by (simp add: hs_skip_def)

lemma hs_skip_rel:
  "\<exists>k. hs_rel h k (hs_skip n (hs_new h)) \<and> 64 * k + unat (eaten (hs_skip n (hs_new h))) = 6 * n"
proof (induction n)
  case 0
  show ?case using hs_rel_new by (auto simp: hs_skip_def hs_new_def)
next
  case (Suc n)
  then obtain k where "hs_rel h k (hs_skip n (hs_new h))"
    and "64 * k + unat (eaten (hs_skip n (hs_new h))) = 6 * n" by blast
  with hs_step(2) [OF _ prod.collapse [symmetric]] show ?case
    by (fastforce simp: hs_skip_Suc)
qed

text \<open>
  C24: the \<open>n\<close>-th value of a fresh stream holds, in its bits \<open>0..5\<close>, the bits
  \<open>6n..6n+5\<close> of the digests after 0, 1, 2, ... marker bytes concatenated low bit
  first, and nothing above: the re-hash splices the old and new digests without
  misalignment, and the stream never ends.
\<close>

theorem hs_nth_bit: "bit (hs_nth (hs_new h) n) b = (b < 6 \<and> stream_bit h (6 * n + b))"
proof -
  obtain k where "hs_rel h k (hs_skip n (hs_new h))"
    and "64 * k + unat (eaten (hs_skip n (hs_new h))) = 6 * n"
    using hs_skip_rel by blast
  with hs_step(1) [OF _ prod.collapse [symmetric]] show ?thesis
    by (simp add: hs_nth_def)
qed

lemma u8_lt_64: "(\<And>b. bit (x :: u8) b \<Longrightarrow> b < 6) \<Longrightarrow> unat x < 64"
proof -
  assume "\<And>b. bit x b \<Longrightarrow> b < 6"
  then have "take_bit 6 x = x" by (intro bit_word_eqI) (auto simp: bit_take_bit_iff)
  then have "unat x = unat (take_bit 6 x)" by simp
  also have "\<dots> = take_bit 6 (unat x)" by (rule unsigned_take_bit_eq)
  also have "\<dots> < 64" using take_bit_nat_less_exp [of 6 "unat x"] by simp
  finally show ?thesis .
qed

text \<open>
  C25: from any state related to the abstract stream, \<open>next\<close> returns a value below 64
  and the \<open>u8\<close> counter \<open>eaten\<close> stays at most 64, so its arithmetic never wraps.
\<close>

theorem hs_next_bounds:
  assumes "hs_rel h k s"
  shows "unat (fst (hs_next s)) < 64 \<and> unat (eaten (snd (hs_next s))) \<le> 64"
proof -
  have "\<And>b. bit (fst (hs_next s)) b \<Longrightarrow> b < 6"
    using hs_step(1) [OF assms prod.collapse [symmetric]] by blast
  moreover obtain k' where "hs_rel h k' (snd (hs_next s))"
    using hs_step(2) [OF assms prod.collapse [symmetric]] by blast
  ultimately show ?thesis by (simp add: u8_lt_64 hs_rel_def)
qed
lemma hs_skip_Suc_right: "hs_skip (Suc n) s = hs_skip n (snd (hs_next s))"
  unfolding hs_skip_def funpow_Suc_right by simp

lemma hs_take_nth: "hs_take n s = map (hs_nth s) [0..<n]"
proof (induction n arbitrary: s)
  case 0
  then show ?case by simp
next
  case (Suc n)
  have "hs_take (Suc n) s = fst (hs_next s) # hs_take n (snd (hs_next s))"
    by (simp add: split_def Let_def)
  also have "\<dots> = hs_nth s 0 # map (hs_nth (snd (hs_next s))) [0..<n]"
    by (simp add: Suc.IH hs_nth_def hs_skip_def)
  also have "\<dots> = hs_nth s 0 # map (\<lambda>i. hs_nth s (Suc i)) [0..<n]"
    by (simp add: hs_nth_def hs_skip_Suc_right)
  also have "\<dots> = map (hs_nth s) [0..<Suc n]"
    by (simp only: map_upt_Suc)
  finally show ?case .
qed

text \<open>
  The source's test \<open>hash_stream\<close> passes: with four digests laid out so that the groups
  count up, the first 42 values are 1, 2, ..., 42, across three re-hashes.
\<close>

lemma hs_take_test: "hs_take 42 (hs_new test_hasher) = map of_nat [1..<43]"
  by code_simp

lemma hs_nth_lt: "unat (hs_nth (hs_new h) n) < 64"
proof -
  obtain k where "hs_rel h k (hs_skip n (hs_new h))"
    using hs_skip_rel by blast
  then have "\<And>b. bit (hs_nth (hs_new h) n) b \<Longrightarrow> b < 6"
    using hs_step(1) [OF _ prod.collapse [symmetric]] by (simp add: hs_nth_def)
  then show ?thesis by (rule u8_lt_64)
qed

lemma hs_next_skip: "hs_next (hs_skip n s) = (hs_nth s n, hs_skip (Suc n) s)"
  by (simp add: hs_nth_def hs_skip_Suc)

theorem hs_next_bounds_witness:
  "hs_rel test_hasher 0 (hs_new test_hasher) \<and>
   unat (fst (hs_next (hs_new test_hasher))) < 64 \<and>
   unat (eaten (snd (hs_next (hs_new test_hasher)))) \<le> 64"
  using hs_next_bounds [OF hs_rel_new] hs_rel_new by blast

end
