(* ===== verification/BitMap.thy ===== *)
theory BitMap
  imports Prelude
begin

text \<open>
  The presence bitmap of a branch, \<open>src/map.rs\<close>: a \<open>usize\<close> in which bit \<open>i\<close>
  says that the branch has a child for hash index \<open>i\<close>. \<open>set_bits_under i\<close> is the
  rank of \<open>i\<close>, the position of its child in the compacted child array. The lemmas
  characterise every operation bitwise and give the rank facts the trie needs: the rank
  of a set bit is below the population count, distinct set bits have distinct ranks, and
  setting a new bit shifts the ranks above it by one.

  Shifts by \<open>i \<ge> 64\<close> overflow in Rust (a panic in debug builds, a shift by
  \<open>i mod 64\<close> in release builds), while the model's \<open>push_bit\<close> and \<open>drop_bit\<close>
  give 0 there; the definitions are faithful for \<open>i < 64\<close> only. The trie only passes
  hash indices below 64, so the lemmas assume \<open>i < 64\<close>.
\<close>

datatype bitmap = BitMap usize

definition bm_empty :: bitmap where
  "bm_empty = BitMap 0"

fun bm_is_empty :: "bitmap \<Rightarrow> bool" where
  "bm_is_empty (BitMap w) = (w = 0)"

fun is_set :: "bitmap \<Rightarrow> nat \<Rightarrow> bool" where
  "is_set (BitMap w) i = ((drop_bit i w) AND 1 = 1)"

fun set_bits :: "bitmap \<Rightarrow> nat" where
  "set_bits (BitMap w) = count_ones w"

fun set_bits_under :: "bitmap \<Rightarrow> nat \<Rightarrow> nat" where
  "set_bits_under (BitMap w) i = count_ones (w AND (push_bit i 1 - 1))"

fun bm_set :: "bitmap \<Rightarrow> nat \<Rightarrow> bitmap" where
  "bm_set (BitMap w) i = BitMap (w OR push_bit i 1)"

fun bm_get :: "bitmap \<Rightarrow> usize" where
  "bm_get (BitMap w) = w"

text \<open>The set bits in ascending order: the slot index of each child, by rank.\<close>

definition bm_indices :: "bitmap \<Rightarrow> nat list" where
  "bm_indices b = filter (is_set b) [0..<64]"

subsection \<open>Bitwise characterisation\<close>

lemma is_set_bit [simp]: "is_set (BitMap w) i = bit w i"
proof -
  have "(drop_bit i w AND 1 = 1) = odd (drop_bit i w)"
    by (simp add: and_one_eq mod_2_eq_odd)
  then show ?thesis by (simp add: bit_iff_odd_drop_bit)
qed

declare is_set.simps [simp del]

lemma is_set_lt: "is_set b i \<Longrightarrow> i < 64"
  by (cases b) (auto dest: bit_imp_le_length)

lemma push_bit_one_minus_one: "push_bit i 1 - 1 = (mask i :: 'a::len word)"
  by (simp add: mask_eq_exp_minus_1)

lemma set_bits_card: "set_bits b = card {j. is_set b j}"
  by (cases b) (simp add: count_ones_card)

lemma set_bits_under_card: "set_bits_under b i = card {j. j < i \<and> is_set b j}"
proof (cases b)
  case (BitMap w)
  have "{n. bit (w AND mask i) n} = {j. j < i \<and> bit w j}"
    by (auto simp: bit_and_iff bit_mask_iff dest: bit_imp_le_length)
  with BitMap show ?thesis
    by (simp only: set_bits_under.simps push_bit_one_minus_one count_ones_card is_set_bit)
qed

lemma is_set_bm_set:
  "i < 64 \<Longrightarrow> is_set (bm_set b i) j = (j = i \<or> is_set b j)"
  by (cases b) (auto simp: bit_or_iff bit_exp_iff)

lemma bm_is_empty_iff: "bm_is_empty b = (\<forall>j. \<not> is_set b j)"
  by (cases b) (simp add: usize_eq_0_iff)

lemma is_set_bm_empty [simp]: "\<not> is_set bm_empty j"
  by (simp add: bm_empty_def)

lemma bm_is_empty_bm_empty [simp]: "bm_is_empty bm_empty"
  by (simp add: bm_empty_def)

subsection \<open>Rank\<close>

lemma finite_is_set [simp]: "finite {j. is_set b j}"
  by (rule finite_subset [of _ "{..<64}"]) (auto dest: is_set_lt)

lemma set_bits_under_lt_set_bits:
  assumes "is_set b i"
  shows "set_bits_under b i < set_bits b"
proof -
  have "{j. j < i \<and> is_set b j} \<subset> {j. is_set b j}"
    using assms by auto
  then show ?thesis
    by (simp add: set_bits_under_card set_bits_card psubset_card_mono)
qed

lemma set_bits_under_mono: "i \<le> j \<Longrightarrow> set_bits_under b i \<le> set_bits_under b j"
  by (simp add: set_bits_under_card card_mono finite_subset [OF _ finite_is_set [of b]]
      subset_iff)

lemma set_bits_under_strict:
  assumes "i < j" "is_set b i"
  shows "set_bits_under b i < set_bits_under b j"
proof -
  have "{k. k < i \<and> is_set b k} \<subset> {k. k < j \<and> is_set b k}"
    using assms by auto
  moreover have "finite {k. k < j \<and> is_set b k}"
    by simp
  ultimately show ?thesis
    by (simp add: set_bits_under_card psubset_card_mono)
qed

lemma set_bits_under_inj:
  "is_set b i \<Longrightarrow> is_set b j \<Longrightarrow> set_bits_under b i = set_bits_under b j \<Longrightarrow> i = j"
  by (metis linorder_neqE_nat less_irrefl set_bits_under_strict)

lemma set_bits_bm_set:
  assumes "i < 64" "\<not> is_set b i"
  shows "set_bits (bm_set b i) = Suc (set_bits b)"
proof -
  have "{j. is_set (bm_set b i) j} = insert i {j. is_set b j}"
    using assms by (auto simp: is_set_bm_set)
  with assms show ?thesis
    by (simp add: set_bits_card)
qed

lemma set_bits_under_bm_set:
  assumes "i < 64" "\<not> is_set b i"
  shows "set_bits_under (bm_set b i) j = set_bits_under b j + (if i < j then 1 else 0)"
proof -
  have eq: "{k. k < j \<and> is_set (bm_set b i) k} =
            (if i < j then insert i {k. k < j \<and> is_set b k} else {k. k < j \<and> is_set b k})"
    using assms by (auto simp: is_set_bm_set)
  have "finite {k. k < j \<and> is_set b k}" by simp
  with assms show ?thesis
    by (simp only: set_bits_under_card eq split: if_split) simp
qed

lemma set_bits_bm_empty [simp]: "set_bits bm_empty = 0"
  by (simp add: bm_empty_def count_ones_def)

lemma length_filter_upt_card: "length (filter P [0..<i]) = card {j. j < i \<and> P j}"
proof -
  have "{k. k < length [0..<i] \<and> P ([0..<i] ! k)} = {j. j < i \<and> P j}"
    by auto
  then show ?thesis by (simp add: length_filter_conv_card)
qed

lemma filter_upt_nth_rank:
  assumes "P i" "i < n"
  shows "filter P [0..<n] ! length (filter P [0..<i]) = i"
proof -
  have "[0..<n] = [0..<i] @ [i..<n]"
    using upt_add_eq_append [of 0 i "n - i"] assms(2) by simp
  also have "[i..<n] = i # [Suc i..<n]"
    using assms(2) by (rule upt_conv_Cons)
  finally have "[0..<n] = [0..<i] @ i # [Suc i..<n]" .
  with assms(1) show ?thesis by (simp add: nth_append)
qed

lemma set_bits_under_filter: "set_bits_under b i = length (filter (is_set b) [0..<i])"
  by (simp add: set_bits_under_card length_filter_upt_card)

lemma set_bits_filter: "set_bits b = length (bm_indices b)"
proof -
  have "{j. is_set b j} = {j. j < 64 \<and> is_set b j}"
    by (auto dest: is_set_lt)
  then show ?thesis
    by (simp add: set_bits_card bm_indices_def length_filter_upt_card)
qed

lemma set_bm_indices [simp]: "set (bm_indices b) = {j. is_set b j}"
  by (auto simp: bm_indices_def dest: is_set_lt)

lemma set_bits_under_Suc:
  "set_bits_under m (Suc i) = set_bits_under m i + (if is_set m i then 1 else 0)"
  by (simp add: set_bits_under_filter)

lemma indices_at_rank: "is_set b i \<Longrightarrow> bm_indices b ! set_bits_under b i = i"
  using filter_upt_nth_rank [of "is_set b" i 64] is_set_lt [of b i]
  by (simp add: set_bits_under_filter bm_indices_def)

lemma bitmap_eqI: "(\<And>j. is_set a j = is_set b j) \<Longrightarrow> a = b"
  by (cases a, cases b) (auto intro: bit_word_eqI)

lemma distinct_bm_indices: "distinct (bm_indices b)"
  by (simp add: bm_indices_def)

lemma rank_of_indices_nth:
  assumes "n < length (bm_indices b)"
  shows "set_bits_under b (bm_indices b ! n) = n"
proof -
  let ?j = "bm_indices b ! n"
  have set: "is_set b ?j" using assms nth_mem by fastforce
  then have r: "set_bits_under b ?j < set_bits b \<and> bm_indices b ! set_bits_under b ?j = ?j"
    using set_bits_under_lt_set_bits [of b ?j] filter_upt_nth_rank [of "is_set b" ?j 64] is_set_lt [of b ?j]
    by (simp add: set_bits_under_filter bm_indices_def)
  then have "bm_indices b ! set_bits_under b ?j = bm_indices b ! n"
    and "set_bits_under b ?j < length (bm_indices b)"
    by (simp_all add: set_bits_filter)
  then show ?thesis
    using assms nth_eq_iff_index_eq [OF distinct_bm_indices [of b]] by blast
qed

lemma set_bits_lt_64: "\<not> is_set b i \<Longrightarrow> i < 64 \<Longrightarrow> set_bits b < 64"
proof -
  assume "\<not> is_set b i" "i < 64"
  then have "{j. is_set b j} \<subseteq> {..<64} - {i}" by (auto dest: is_set_lt)
  then have "card {j. is_set b j} \<le> card ({..<64::nat} - {i})" by (rule card_mono [rotated]) simp
  with \<open>i < 64\<close> show ?thesis by (simp add: set_bits_card)
qed

lemma set_bits_under_bm_empty [simp]: "set_bits_under bm_empty j = 0"
  by (simp add: set_bits_under_card)

lemma single_map:
  assumes "i < 64"
  shows "is_set (bm_set bm_empty i) x = (x = i)" and "set_bits (bm_set bm_empty i) = 1"
    and "set_bits_under (bm_set bm_empty i) i = 0" and "\<not> bm_is_empty (bm_set bm_empty i)"
  using assms by (simp_all add: is_set_bm_set set_bits_bm_set set_bits_under_bm_set bm_is_empty_iff)

lemma pair_map:
  assumes "i < 64" "j < 64" "i \<noteq> j"
  shows "is_set (bm_set (bm_set bm_empty i) j) x = (x = i \<or> x = j)"
    and "set_bits (bm_set (bm_set bm_empty i) j) = 2"
    and "set_bits_under (bm_set (bm_set bm_empty i) j) i = (if j < i then 1 else 0)"
    and "set_bits_under (bm_set (bm_set bm_empty i) j) j = (if i < j then 1 else 0)"
    and "\<not> bm_is_empty (bm_set (bm_set bm_empty i) j)"
proof -
  have ni: "\<not> is_set (bm_set bm_empty i) j" using assms by (simp add: single_map)
  show "is_set (bm_set (bm_set bm_empty i) j) x = (x = i \<or> x = j)"
    using assms by (auto simp: is_set_bm_set single_map)
  show "set_bits (bm_set (bm_set bm_empty i) j) = 2"
    using assms ni by (simp add: set_bits_bm_set single_map)
  show "set_bits_under (bm_set (bm_set bm_empty i) j) i = (if j < i then 1 else 0)"
    using assms ni by (simp add: set_bits_under_bm_set single_map)
  show "set_bits_under (bm_set (bm_set bm_empty i) j) j = (if i < j then 1 else 0)"
    using assms ni by (simp add: set_bits_under_bm_set single_map)
  show "\<not> bm_is_empty (bm_set (bm_set bm_empty i) j)"
    using assms by (auto simp: bm_is_empty_iff is_set_bm_set)
qed

lemma set_bits_under_le_set_bits: "set_bits_under b i \<le> set_bits b"
  by (simp add: set_bits_under_card set_bits_card card_mono finite_is_set subset_iff)

lemma set_bits_pos: "\<not> bm_is_empty b \<Longrightarrow> 0 < set_bits b"
  by (auto simp: bm_is_empty_iff set_bits_card finite_is_set card_gt_0_iff)

lemma grow_rank:
  assumes "i < 64" "\<not> is_set m i"
  shows "set_bits_under (bm_set m i) i = set_bits_under m i"
  using set_bits_under_bm_set [OF assms, of i] by simp

lemma grow_nth:
  assumes i: "i < 64" "\<not> is_set m i" and len: "length cs = set_bits m"
    and j: "is_set m j"
  shows "insert_at (set_bits_under m i) x cs ! set_bits_under (bm_set m i) j = cs ! set_bits_under m j"
proof -
  have ji: "j \<noteq> i" using i j by auto
  have pos: "set_bits_under m i \<le> length cs" using len set_bits_under_le_set_bits by simp
  have rj: "set_bits_under m j < length cs" using len set_bits_under_lt_set_bits [OF j] by simp
  show ?thesis
  proof (cases "i < j")
    case True
    then have "set_bits_under m i \<le> set_bits_under m j" by (rule set_bits_under_mono [OF less_imp_le])
    with pos rj True show ?thesis
      by (simp add: set_bits_under_bm_set [OF i] nth_insert_at)
  next
    case False
    with ji have "j < i" by simp
    then have "set_bits_under m j < set_bits_under m i" by (rule set_bits_under_strict [OF _ j])
    with pos rj False show ?thesis
      by (simp add: set_bits_under_bm_set [OF i] nth_insert_at)
  qed
qed

text \<open>
  C31: for any word and any index \<open>i < 64\<close> (the shifts \<open>1 << i\<close> of \<open>set_bits_under\<close>
  overflow from 64 on), \<open>set_bits_under i\<close> counts the set bits strictly below \<open>i\<close>
  and \<open>set_bits\<close> counts all set bits.
\<close>

theorem bitmap_rank_count:
  "i < 64 \<Longrightarrow>
   set_bits_under (BitMap w) i = card {j. j < i \<and> bit w j} \<and> set_bits (BitMap w) = card {j. bit w j}"
  using set_bits_under_card [of "BitMap w" i] set_bits_card [of "BitMap w"] by simp

text \<open>
  C30: the rank of a set bit is a position inside the compacted child array, and the
  child stored there is the one of that bit: the \<open>set_bits_under i\<close>-th set bit in
  ascending order is \<open>i\<close>.
\<close>

theorem rank_indexes_children:
  "is_set b i \<Longrightarrow> set_bits_under b i < set_bits b \<and> bm_indices b ! set_bits_under b i = i"
  using set_bits_under_lt_set_bits [of b i] filter_upt_nth_rank [of "is_set b" i 64] is_set_lt [of b i]
  by (simp add: set_bits_under_filter bm_indices_def)

theorem bitmap_rank_count_witness:
  "set_bits_under (BitMap 5) 3 = card {j. j < 3 \<and> bit (5 :: usize) j} \<and> set_bits (BitMap 5) = card {j. bit (5 :: usize) j}"
  by (rule bitmap_rank_count) simp

theorem rank_indexes_children_witness:
  "is_set (BitMap 13) 3 \<and> set_bits_under (BitMap 13) 3 < set_bits (BitMap 13) \<and>
   bm_indices (BitMap 13) ! set_bits_under (BitMap 13) 3 = 3"
proof -
  have s: "is_set (BitMap 13) 3" by simp
  from rank_indexes_children [OF s] s show ?thesis by blast
qed

end
