(* ===== verification/Node.thy ===== *)
theory Node
  imports BitMap
begin

text \<open>
  The trie cell of \<open>src/node.rs\<close>, at two levels.

  \<^item> The representation: a \<open>Node\<close> is two machine words. \<open>map_key\<close> holds either
    the bitmap of a branch or the address of a leaf's key; \<open>base_value\<close> holds either
    the address of a leaf's value or the address of a branch's child array with its
    lowest bit set as the branch tag. Addresses are \<open>usize\<close> values; the
    allocations of \<open>Box::into_raw\<close> are the parameters \<open>key\<close> and \<open>value\<close>.
    The lemmas show that \<open>inner\<close> decodes what \<open>empty\<close>, \<open>key_value\<close>,
    \<open>set_base\<close> and \<open>set_value\<close> encode, provided value and array addresses are
    even (aligned), that a leaf with an odd value address is read back as a branch,
    and that the branch-only and leaf-only mutators refuse the other variant.
  \<^item> The view the algorithms of \<open>lib.rs\<close> use: the datatype \<open>node\<close> with a leaf
    owning a key and a value and a branch owning a bitmap and its child array (the
    re-architecture the spec's design notes ask for), with the same mutators.
    \<open>node_drop\<close> is \<open>impl Drop for Node\<close>: for a branch it rebuilds a
    \<open>Box<Node>\<close> from the base address, so it releases the first child only, and it
    dereferences a null base for the empty branch.
\<close>

subsection \<open>The two-word representation\<close>

datatype ('l, 'r) either = Left 'l | Right 'r

record node_repr =
  map_key :: usize
  base_value :: usize

definition bv_is_value :: "usize \<Rightarrow> bool" where
  "bv_is_value repr = (repr AND 1 = 0)"

definition bv_new_base :: "usize \<Rightarrow> usize" where
  "bv_new_base base = base OR 1"

definition bv_new_value :: "usize \<Rightarrow> usize" where
  "bv_new_value value = value"

definition bv_get_value :: "usize \<Rightarrow> usize option" where
  "bv_get_value repr = (if bv_is_value repr then Some repr else None)"

definition bv_get_base :: "usize \<Rightarrow> usize option" where
  "bv_get_base repr = (if bv_is_value repr then None else Some (repr AND NOT 1))"

definition repr_empty :: node_repr where
  "repr_empty = \<lparr>map_key = bm_get bm_empty, base_value = bv_new_base 0\<rparr>"

definition repr_key_value :: "usize \<Rightarrow> usize \<Rightarrow> node_repr" where
  "repr_key_value key value = \<lparr>map_key = key, base_value = bv_new_value value\<rparr>"

definition repr_inner :: "node_repr \<Rightarrow> (usize \<times> usize, bitmap \<times> usize) either" where
  "repr_inner n =
     (if bv_is_value (base_value n) then Left (map_key n, base_value n)
      else Right (BitMap (map_key n), base_value n AND NOT 1))"

definition repr_set_base :: "node_repr \<Rightarrow> usize \<Rightarrow> usize option \<times> node_repr" where
  "repr_set_base n base =
     (if bv_is_value (base_value n) then (None, n)
      else (Some (base_value n AND NOT 1), n\<lparr>base_value := base OR 1\<rparr>))"

definition repr_get_map :: "node_repr \<Rightarrow> bitmap option" where
  "repr_get_map n = (if bv_is_value (base_value n) then None else Some (BitMap (map_key n)))"

definition repr_set_value :: "node_repr \<Rightarrow> usize \<Rightarrow> usize option \<times> node_repr" where
  "repr_set_value n value =
     (if bv_is_value (base_value n) then (Some (base_value n), n\<lparr>base_value := value\<rparr>)
      else (None, n))"

subsection \<open>The trie cell as the algorithms see it\<close>

datatype ('k, 'v) node = Leaf 'k 'v | Branch bitmap "('k, 'v) node list"

definition node_empty :: "('k, 'v) node" where
  "node_empty = Branch bm_empty []"

definition node_key_value :: "'k \<Rightarrow> 'v \<Rightarrow> ('k, 'v) node" where
  "node_key_value k v = Leaf k v"

fun node_set_base :: "('k, 'v) node \<Rightarrow> ('k, 'v) node list \<Rightarrow> ('k, 'v) node list option \<times> ('k, 'v) node" where
  "node_set_base (Leaf k v) cs' = (None, Leaf k v)"
| "node_set_base (Branch m cs) cs' = (Some cs, Branch m cs')"

text \<open>\<open>cur.get_map().map(|m| m.set(i))\<close>: set a bit of a branch; a leaf is left alone.\<close>

fun node_map_set :: "('k, 'v) node \<Rightarrow> nat \<Rightarrow> ('k, 'v) node" where
  "node_map_set (Leaf k v) i = Leaf k v"
| "node_map_set (Branch m cs) i = Branch (bm_set m i) cs"

fun node_set_value :: "('k, 'v) node \<Rightarrow> 'v \<Rightarrow> 'v option \<times> ('k, 'v) node" where
  "node_set_value (Leaf k v) v' = (Some v, Leaf k v')"
| "node_set_value (Branch m cs) v' = (None, Branch m cs)"

text \<open>The entries a node owns, children in rank order: the abstraction of a trie.\<close>

fun leaves :: "('k, 'v) node \<Rightarrow> ('k \<times> 'v) list" where
  "leaves (Leaf k v) = [(k, v)]"
| "leaves (Branch m cs) = concat (map leaves cs)"

text \<open>
  \<open>Drop for Node\<close>: the entries it releases, or the fault. A branch with no child
  array has a null base; \<open>Box::from_raw(base)\<close> then drops a \<open>Node\<close> read through
  the null pointer. Otherwise the box covers only the first cell of the array.
\<close>

fun node_drop :: "('k, 'v) node \<Rightarrow> error + ('k \<times> 'v) list" where
  "node_drop (Leaf k v) = Inr [(k, v)]"
| "node_drop (Branch m []) = Inl Null_dereference"
| "node_drop (Branch m (c # cs)) = node_drop c"

subsection \<open>Tag bit\<close>

lemma bv_is_value_even: "bv_is_value r = even r"
  by (simp add: bv_is_value_def and_one_eq even_iff_mod_2_eq_zero)

lemma bv_new_base_tagged: "\<not> bv_is_value (bv_new_base b)"
  by (simp add: bv_is_value_even bv_new_base_def even_or_iff)

lemma or_one_and_not_one: "even (b :: usize) \<Longrightarrow> (b OR 1) AND NOT 1 = b"
proof (rule bit_word_eqI)
  fix n assume "even b" "n < LENGTH(64)"
  then show "bit ((b OR 1) AND NOT 1) n = bit b n"
    by (cases n) (simp_all add: bit_and_iff bit_or_iff bit_not_iff bit_0 even_and_iff)
qed

text \<open>
  C32: a leaf built by \<open>Node::key_value\<close> from an aligned (even) value address
  decodes as that leaf: the tag bit is clear and both addresses come back unchanged.
\<close>

theorem repr_inner_key_value:
  "even value \<Longrightarrow> repr_inner (repr_key_value key value) = Left (key, value)"
  by (simp add: repr_inner_def repr_key_value_def bv_new_value_def bv_is_value_even)

text \<open>
  C33: on a branch, \<open>set_base\<close> with an aligned array address returns the
  previous base and leaves a cell that still decodes as a branch, with the same bitmap and
  the new base.
\<close>

theorem repr_set_base_inner:
  assumes "repr_inner n = Right (m, b)" "even base"
  shows "fst (repr_set_base n base) = Some b \<and> repr_inner (snd (repr_set_base n base)) = Right (m, base)"
proof -
  have "\<not> bv_is_value (base OR 1)"
    using bv_new_base_tagged by (simp add: bv_new_base_def)
  with assms show ?thesis
    by (auto simp: repr_inner_def repr_set_base_def or_one_and_not_one [simplified]
        split: if_splits)
qed

lemma repr_set_value_inner:
  assumes "repr_inner n = Left (k, v)" "even value"
  shows "fst (repr_set_value n value) = Some v \<and> repr_inner (snd (repr_set_value n value)) = Left (k, value)"
  using assms by (auto simp: repr_inner_def repr_set_value_def bv_is_value_even split: if_splits)

lemma repr_leaf_refuses_branch_ops_aux:
  "repr_inner n = Left (k, v) \<Longrightarrow> repr_set_base n b = (None, n) \<and> repr_get_map n = None"
  by (auto simp: repr_inner_def repr_set_base_def repr_get_map_def split: if_splits)

lemma repr_branch_refuses_set_value_aux:
  "repr_inner n = Right (m, b) \<Longrightarrow> repr_set_value n v = (None, n)"
  by (auto simp: repr_inner_def repr_set_value_def split: if_splits)

lemma odd_and_not_one: "odd (w :: usize) \<Longrightarrow> w AND NOT 1 = w - 1"
proof -
  assume o: "odd w"
  then have e: "even (w - 1)" by simp
  then have "(w - 1) OR 1 = w" by (simp add: or_one_eq)
  with or_one_and_not_one [OF e] show ?thesis by simp
qed

text \<open>
  C35: a leaf built by \<open>Node::key_value\<close> from any odd value address is read back as
  a branch, whose bitmap is the key word and whose child array starts one byte below
  the value, and the branch-only \<open>get_map\<close> accepts it. \<open>Box::new\<close> of a zero-sized
  value returns the dangling address equal to its alignment (1 for \<open>()\<close>), so a map
  with such values reads its leaves as branches over a null child array.
\<close>

theorem repr_odd_value_is_branch:
  "odd value \<Longrightarrow>
   repr_inner (repr_key_value key value) = Right (BitMap key, value - 1) \<and>
   repr_get_map (repr_key_value key value) = Some (BitMap key)"
  by (simp add: repr_inner_def repr_get_map_def repr_key_value_def bv_new_value_def bv_is_value_even
      odd_and_not_one [simplified])

subsection \<open>Drop\<close>

lemma node_drop_single: "node_drop t = Inr xs \<Longrightarrow> length xs = 1"
  by (induction t rule: node_drop.induct) auto

text \<open>
  C36: dropping a cell that owns two or more entries releases only one of
  them: \<open>Box::from_raw(base)\<close> covers the first cell of the child array.
\<close>

theorem node_drop_loses_entries:
  "2 \<le> length (leaves t) \<Longrightarrow> node_drop t \<noteq> Inr (leaves t)"
  using node_drop_single by fastforce

text \<open>
  C34: the branch-only mutators \<open>set_base\<close> and \<open>get_map\<close> refuse a leaf and
  \<open>set_value\<close> refuses a branch, leaving the cell unchanged.
\<close>

theorem repr_wrong_variant:
  "(repr_inner n = Left (k, v) \<longrightarrow> repr_set_base n b = (None, n) \<and> repr_get_map n = None) \<and>
   (repr_inner n' = Right (m, b') \<longrightarrow> repr_set_value n' v' = (None, n'))"
  using repr_leaf_refuses_branch_ops_aux repr_branch_refuses_set_value_aux by blast

subsection \<open>Size of a child\<close>

lemma size_nth_child: "n < length cs \<Longrightarrow> size (cs ! n) < Suc (size_list size cs)"
proof -
  assume "n < length cs"
  then have "cs ! n \<in> set cs" by simp
  then have "size (cs ! n) \<le> size_list size cs"
    by (rule size_list_estimation') simp
  then show ?thesis by simp
qed

lemma size_nth_child_lt: "n < length cs \<Longrightarrow> size (cs ! n) < size_list size cs"
proof (induction cs arbitrary: n)
  case Nil
  then show ?case by simp
next
  case (Cons c cs)
  show ?case
  proof (cases n)
    case 0
    then show ?thesis by simp
  next
    case (Suc k)
    with Cons.prems have "size (cs ! k) < size_list size cs" by (intro Cons.IH) simp
    with Suc show ?thesis by simp
  qed
qed

subsection \<open>Witnesses\<close>

theorem repr_inner_key_value_witness:
  "even (8 :: usize) \<and> repr_inner (repr_key_value 16 8) = Left (16, 8)"
  using repr_inner_key_value [of 8 16] by simp

theorem repr_set_base_inner_witness:
  "repr_inner repr_empty = Right (bm_empty, 0) \<and> even (32 :: usize) \<and>
   fst (repr_set_base repr_empty 32) = Some 0 \<and>
   repr_inner (snd (repr_set_base repr_empty 32)) = Right (bm_empty, 32)"
proof -
  have e: "repr_inner repr_empty = Right (bm_empty, 0)"
    by (simp add: repr_inner_def repr_empty_def bm_empty_def bv_new_base_def bv_is_value_def)
  have "even (32 :: usize)" by simp
  with e repr_set_base_inner [OF e] show ?thesis by blast
qed

theorem repr_wrong_variant_witness:
  "repr_inner (repr_key_value 16 8) = Left (16, 8) \<and>
   repr_set_base (repr_key_value 16 8) 32 = (None, repr_key_value 16 8) \<and>
   repr_get_map (repr_key_value 16 8) = None \<and>
   repr_inner (repr_key_value 0 1) = Right (BitMap 0, 0) \<and>
   repr_set_value (repr_key_value 0 1) 8 = (None, repr_key_value 0 1)"
proof -
  have l: "repr_inner (repr_key_value 16 8) = Left (16, 8)"
    by (simp add: repr_inner_def repr_key_value_def bv_new_value_def bv_is_value_def)
  have r: "repr_inner (repr_key_value 0 1) = Right (BitMap 0, 0)"
    by (simp add: repr_inner_def repr_key_value_def bv_new_value_def bv_is_value_def)
  from repr_wrong_variant [of "repr_key_value 16 8" 16 8 32 "repr_key_value 0 1" "BitMap 0" 0 8] l r
  show ?thesis by blast
qed

theorem repr_odd_value_is_branch_witness:
  "repr_inner (repr_key_value 5 1) = Right (BitMap 5, 0) \<and> repr_get_map (repr_key_value 5 1) = Some (BitMap 5)"
  using repr_odd_value_is_branch [of 1 5] by simp

theorem node_drop_loses_entries_witness:
  "2 \<le> length (leaves (Branch (BitMap 3) [Leaf (1 :: nat) (1 :: nat), Leaf 2 2])) \<and>
   node_drop (Branch (BitMap 3) [Leaf (1 :: nat) (1 :: nat), Leaf 2 2]) \<noteq>
   Inr (leaves (Branch (BitMap 3) [Leaf (1 :: nat) (1 :: nat), Leaf 2 2]))"
proof -
  have l: "2 \<le> length (leaves (Branch (BitMap 3) [Leaf (1 :: nat) (1 :: nat), Leaf 2 2]))" by simp
  from node_drop_loses_entries [OF l] l show ?thesis by blast
qed

end
