(* ===== verification/FreeList.thy ===== *)
theory FreeList
  imports Prelude
begin

text \<open>
  The size-classed recycler of \<open>src/free_list.rs\<close>. \<open>FreeList<T>\<close> is an array of
  \<open>BITS_IN_POINTER\<close> = 64 singly linked stacks (\<open>Link\<close>, modelled as a list); stack
  \<open>i\<close> holds freed buffers of length \<open>i + 1\<close>. A pooled buffer keeps its stale
  contents (\<open>Pooled xs\<close>): the model does not erase what the code leaves behind, so
  the lemma that no stale element escapes is a real statement. \<open>free\<close> drops the
  \<open>Box\<close> itself before pooling it, so what it pools is deallocated memory
  (\<open>Dangling n\<close>); any later reuse of it is \<open>Use_after_free\<close>.

  Out-of-range indexing of the stack array (\<open>self.0[len]\<close>) panics: \<open>Index_out_of_bounds\<close>.
  The invariant \<open>fl_ok\<close> (64 stacks, every buffer live and of its class's length) is
  kept by \<open>singleton\<close>, \<open>pair\<close> and \<open>push\<close>, and under it they return exactly
  \<open>[x]\<close>, \<open>[a, b]\<close> and \<open>xs @ [x]\<close>.
\<close>

datatype 'a pooled = Pooled "'a list" | Dangling nat

type_synonym 'a free_list = "'a pooled list list"

definition fl_new :: "unit \<Rightarrow> 'a free_list" where
  "fl_new _ = replicate 64 []"

text \<open>\<open>mem::replace(&mut self.0[i], Nil)\<close>: take a whole stack out of the array.\<close>

definition fl_take :: "'a free_list \<Rightarrow> nat \<Rightarrow> error + ('a pooled list \<times> 'a free_list)" where
  "fl_take fl i = (if i < length fl then Inr (fl ! i, fl[i := []]) else Inl Index_out_of_bounds)"

text \<open>\<open>automify\<close>: turn a pooled buffer back into an owned one.\<close>

fun automify :: "'a pooled \<Rightarrow> error + 'a list" where
  "automify (Pooled xs) = Inr xs"
| "automify (Dangling n) = Inl Use_after_free"

fun pooled_len :: "'a pooled \<Rightarrow> nat" where
  "pooled_len (Pooled xs) = length xs"
| "pooled_len (Dangling n) = n"

definition free_internal :: "'a free_list \<Rightarrow> 'a pooled \<Rightarrow> error + 'a free_list" where
  "free_internal fl b =
     (if pooled_len b = 0 then Inl Assertion_failed
      else let i = pooled_len b - 1 in
        if i < length fl then Inr (fl[i := b # fl ! i]) else Inl Index_out_of_bounds)"

definition singleton :: "'a free_list \<Rightarrow> 'a \<Rightarrow> error + ('a list \<times> 'a free_list)" where
  "singleton fl uno =
     (case fl_take fl 0 of
        Inl e \<Rightarrow> Inl e
      | Inr (c # n, fl1) \<Rightarrow>
          (case automify c of
             Inl e \<Rightarrow> Inl e
           | Inr res \<Rightarrow> Inr (res[0 := uno], fl1[0 := n]))
      | Inr ([], fl1) \<Rightarrow> Inr ([uno], fl1))"

definition pair :: "'a free_list \<Rightarrow> 'a \<Rightarrow> 'a \<Rightarrow> error + ('a list \<times> 'a free_list)" where
  "pair fl fst' snd' =
     (case fl_take fl 1 of
        Inl e \<Rightarrow> Inl e
      | Inr (c # n, fl1) \<Rightarrow>
          (case automify c of
             Inl e \<Rightarrow> Inl e
           | Inr res \<Rightarrow> Inr (res[0 := fst', 1 := snd'], fl1[1 := n]))
      | Inr ([], fl1) \<Rightarrow> Inr ([fst', snd'], fl1))"

text \<open>
  \<open>push\<close>: take a buffer of length \<open>len + 1\<close> (or allocate one), move the \<open>len\<close>
  elements into it (\<open>copy_nonoverlapping\<close> overwrites its first \<open>len\<close> cells), pool
  the old buffer, and write the new element into the last cell. A fresh buffer
  (\<open>Vec::with_capacity\<close>, \<open>set_len\<close>) has no contents before the copy and the
  write, so it is \<open>slice @ [new]\<close> directly.
\<close>

definition push :: "'a free_list \<Rightarrow> 'a list \<Rightarrow> 'a \<Rightarrow> error + ('a list \<times> 'a free_list)" where
  "push fl slc new =
     (if slc = [] then Inl Assertion_failed
      else let len = length slc in
        (case fl_take fl len of
           Inl e \<Rightarrow> Inl e
         | Inr (c # n, fl1) \<Rightarrow>
             (case automify c of
                Inl e \<Rightarrow> Inl e
              | Inr res \<Rightarrow>
                  (case free_internal (fl1[len := n]) (Pooled slc) of
                     Inl e \<Rightarrow> Inl e
                   | Inr fl2 \<Rightarrow> Inr ((slc @ drop len res)[len := new], fl2)))
         | Inr ([], fl1) \<Rightarrow>
             (case free_internal fl1 (Pooled slc) of
                Inl e \<Rightarrow> Inl e
              | Inr fl2 \<Rightarrow> Inr (slc @ [new], fl2))))"

text \<open>
  \<open>free\<close>: \<open>ptr::drop_in_place(&mut b as *mut _)\<close> drops the \<open>Box\<close> (its elements
  and its allocation); the dangling box is then pooled.
\<close>

definition free :: "'a free_list \<Rightarrow> 'a list \<Rightarrow> error + 'a free_list" where
  "free fl b = free_internal fl (Dangling (length b))"

subsection \<open>Invariant\<close>

fun pooled_ok :: "nat \<Rightarrow> 'a pooled \<Rightarrow> bool" where
  "pooled_ok n (Pooled xs) = (length xs = n)"
| "pooled_ok n (Dangling m) = False"

definition fl_ok :: "'a free_list \<Rightarrow> bool" where
  "fl_ok fl = (length fl = 64 \<and> (\<forall>i < length fl. list_all (pooled_ok (Suc i)) (fl ! i)))"

text \<open>The number of pooled buffers: what a warm pool saves in fresh allocations.\<close>

definition fl_count :: "'a free_list \<Rightarrow> nat" where
  "fl_count fl = length (concat fl)"

lemma fl_ok_new: "fl_ok (fl_new ())"
  by (simp add: fl_ok_def fl_new_def)

lemma fl_ok_update:
  "fl_ok fl \<Longrightarrow> i < length fl \<Longrightarrow> list_all (pooled_ok (Suc i)) ys \<Longrightarrow> fl_ok (fl[i := ys])"
  by (simp add: fl_ok_def nth_list_update)

lemma fl_ok_length: "fl_ok fl \<Longrightarrow> length fl = 64"
  by (simp add: fl_ok_def)

lemma fl_ok_nth: "fl_ok fl \<Longrightarrow> i < 64 \<Longrightarrow> list_all (pooled_ok (Suc i)) (fl ! i)"
  unfolding fl_ok_def by auto

lemma fl_ok_pop:
  assumes "fl_ok fl" "i < 64" "fl ! i = c # n"
  shows "\<exists>xs. c = Pooled xs \<and> length xs = Suc i \<and> fl_ok (fl[i := n])"
proof -
  from assms have all: "list_all (pooled_ok (Suc i)) (c # n)"
    by (metis fl_ok_nth)
  then have "fl_ok (fl[i := n])"
    using assms by (intro fl_ok_update) (simp_all add: fl_ok_length)
  with all show ?thesis
    by (cases c) auto
qed

lemma free_internal_pooled:
  assumes "fl_ok fl" "0 < length xs" "length xs \<le> 64"
  shows "free_internal fl (Pooled xs) = Inr (fl[length xs - 1 := Pooled xs # fl ! (length xs - 1)])"
    and "fl_ok (fl[length xs - 1 := Pooled xs # fl ! (length xs - 1)])"
proof -
  show "free_internal fl (Pooled xs) = Inr (fl[length xs - 1 := Pooled xs # fl ! (length xs - 1)])"
    using assms by (simp add: free_internal_def Let_def fl_ok_length)
  have "list_all (pooled_ok (Suc (length xs - 1))) (fl ! (length xs - 1))"
    using assms by (intro fl_ok_nth) simp_all
  then have "list_all (pooled_ok (length xs)) (fl ! (length xs - 1))"
    using assms by simp
  then show "fl_ok (fl[length xs - 1 := Pooled xs # fl ! (length xs - 1)])"
    using assms by (intro fl_ok_update) (simp_all add: fl_ok_length)
qed

lemma singleton_result:
  "fl_ok fl \<Longrightarrow> \<exists>fl'. singleton fl x = Inr ([x], fl') \<and> fl_ok fl'"
proof (cases "fl ! 0")
  case Nil
  assume ok: "fl_ok fl"
  have len: "length fl = 64" using ok by (rule fl_ok_length)
  from ok have "fl_ok (fl[0 := []])"
    by (rule fl_ok_update) (simp_all add: len)
  moreover have "fl \<noteq> []"
    using len by auto
  ultimately show ?thesis
    using Nil by (simp add: singleton_def fl_take_def)
next
  case (Cons c n)
  assume ok: "fl_ok fl"
  with Cons obtain xs where "c = Pooled xs" "length xs = 1" "fl_ok (fl[0 := n])"
    using fl_ok_pop [of fl 0] by auto
  with ok Cons show ?thesis
    by (auto simp: singleton_def fl_take_def fl_ok_length length_Suc_conv)
qed

lemma pair_result:
  "fl_ok fl \<Longrightarrow> \<exists>fl'. pair fl a b = Inr ([a, b], fl') \<and> fl_ok fl'"
proof (cases "fl ! 1")
  case Nil
  assume ok: "fl_ok fl"
  have len: "length fl = 64" using ok by (rule fl_ok_length)
  from ok have "fl_ok (fl[1 := []])"
    by (rule fl_ok_update) (simp_all add: len)
  with len Nil show ?thesis
    by (simp add: pair_def fl_take_def)
next
  case (Cons c n)
  assume ok: "fl_ok fl"
  with Cons obtain xs where "c = Pooled xs" "length xs = 2" "fl_ok (fl[1 := n])"
    using fl_ok_pop [of fl 1] by auto
  with ok Cons show ?thesis
    by (auto simp: pair_def fl_take_def fl_ok_length length_Suc_conv numeral_2_eq_2)
qed

lemma push_cases:
  assumes ok: "fl_ok fl" and len: "0 < length xs" "length xs < 64"
  obtains (fresh) "fl ! length xs = []"
      "push fl xs y = Inr (xs @ [y], (fl[length xs := []])[length xs - 1 := Pooled xs # fl ! (length xs - 1)])"
      "fl_ok (fl[length xs := []])"
  | (reuse) c n ys where "fl ! length xs = c # n" "c = Pooled ys" "length ys = Suc (length xs)"
      "push fl xs y = Inr (xs @ [y], (fl[length xs := n])[length xs - 1 := Pooled xs # fl ! (length xs - 1)])"
      "fl_ok (fl[length xs := n])"
proof (cases "fl ! length xs")
  case Nil
  have neq: "length xs \<noteq> length xs - 1" using len(1) by linarith
  have l64: "length fl = 64" using ok by (rule fl_ok_length)
  from ok have ok1: "fl_ok (fl[length xs := []])"
    by (rule fl_ok_update) (simp_all add: l64 len)
  have "(fl[length xs := []]) ! (length xs - 1) = fl ! (length xs - 1)"
    using neq by simp
  with free_internal_pooled(1) [OF ok1 len(1)] len l64 Nil
  have "push fl xs y = Inr (xs @ [y], (fl[length xs := []])[length xs - 1 := Pooled xs # fl ! (length xs - 1)])"
    by (simp add: push_def fl_take_def Let_def list_update_append)
  from Nil this ok1 show ?thesis by (rule fresh)
next
  case (Cons c n)
  from fl_ok_pop [OF ok len(2) Cons] obtain ys where
    ys: "c = Pooled ys" "length ys = Suc (length xs)" and ok1: "fl_ok (fl[length xs := n])"
    by blast
  have l64: "length fl = 64" using ok by (rule fl_ok_length)
  have neq: "length xs \<noteq> length xs - 1" using len(1) by linarith
  have "(fl[length xs := n]) ! (length xs - 1) = fl ! (length xs - 1)"
    using neq by simp
  moreover have "drop (length xs) ys = [ys ! length xs]"
    using ys(2) by (metis Cons_nth_drop_Suc drop_all lessI order_refl)
  ultimately have "push fl xs y = Inr (xs @ [y], (fl[length xs := n])[length xs - 1 := Pooled xs # fl ! (length xs - 1)])"
    using free_internal_pooled(1) [OF ok1 len(1)] len l64 Cons ys
    by (simp add: push_def fl_take_def Let_def list_update_append)
  from Cons ys this ok1 show ?thesis by (rule reuse)
qed

lemma push_result:
  assumes "fl_ok fl" "0 < length xs" "length xs < 64"
  shows "\<exists>fl'. push fl xs y = Inr (xs @ [y], fl') \<and> fl_ok fl'"
proof -
  have neq: "length xs \<noteq> length xs - 1" using assms(2) by linarith
  show ?thesis
proof (cases rule: push_cases [OF assms, of y, case_names fresh reuse])
  case fresh
  with assms neq show ?thesis
    using free_internal_pooled(2) [of "fl[length xs := []]" xs] by auto
next
  case (reuse c n ys)
  with assms neq show ?thesis
    using free_internal_pooled(2) [of "fl[length xs := n]" xs] by auto
qed
qed

lemma length_concat_update:
  "i < length xss \<Longrightarrow> length (concat (xss[i := ys])) + length (xss ! i) = length (concat xss) + length ys"
proof (induction xss arbitrary: i)
  case Nil
  then show ?case by simp
next
  case (Cons xs xss)
  then show ?case by (cases i) auto
qed

lemma push_count:
  assumes "fl_ok fl" "0 < length xs" "length xs < 64" "push fl xs y = Inr (r, fl')"
  shows "fl_count fl' = fl_count fl + (if fl ! length xs = [] then 1 else 0)"
proof -
  have neq: "length xs \<noteq> length xs - 1" using assms(2) by linarith
  show ?thesis
proof (cases rule: push_cases [OF assms(1-3), of y, case_names fresh reuse])
  case fresh
  have l64: "length fl = 64" using assms(1) by (rule fl_ok_length)
  from fresh assms(2,3,4) l64 neq show ?thesis
    using length_concat_update [of "length xs - 1" "fl[length xs := []]"
            "Pooled xs # fl ! (length xs - 1)"]
          length_concat_update [of "length xs" fl "[]"]
    by (simp add: fl_count_def)
next
  case (reuse c n ys)
  have l64: "length fl = 64" using assms(1) by (rule fl_ok_length)
  from reuse assms(2,3,4) l64 neq show ?thesis
    using length_concat_update [of "length xs - 1" "fl[length xs := n]"
            "Pooled xs # fl ! (length xs - 1)"]
          length_concat_update [of "length xs" fl n]
    by (simp add: fl_count_def)
qed
qed

lemma fl_count_update:
  "i < length fl \<Longrightarrow> fl_count (fl[i := ys]) + length (fl ! i) = fl_count fl + length ys"
  unfolding fl_count_def by (rule length_concat_update)

lemma fl_count_pop:
  "i < length fl \<Longrightarrow> fl ! i = c # n \<Longrightarrow> fl_count (fl[i := n]) < fl_count fl"
  using fl_count_update [of i fl n] by simp

lemma fl_update_nil_id: "fl ! i = [] \<Longrightarrow> fl[i := []] = fl"
  by (metis list_update_id)

lemma free_internal_count:
  "free_internal fl b = Inr fl' \<Longrightarrow> fl_count fl' = Suc (fl_count fl)"
  using fl_count_update [of "pooled_len b - 1" fl "b # fl ! (pooled_len b - 1)"]
  by (auto simp: free_internal_def Let_def split: if_splits)

lemma singleton_count: "singleton fl x = Inr (r, fl') \<Longrightarrow> fl_count fl' \<le> fl_count fl"
  by (auto simp: singleton_def fl_take_def fl_update_nil_id intro!: less_imp_le [OF fl_count_pop]
           split: if_splits list.splits sum.splits)

lemma pair_count: "pair fl a b = Inr (r, fl') \<Longrightarrow> fl_count fl' \<le> fl_count fl"
  by (auto simp: pair_def fl_take_def fl_update_nil_id intro!: less_imp_le [OF fl_count_pop]
           split: if_splits list.splits sum.splits)

lemma push_count_le: "push fl xs y = Inr (r, fl') \<Longrightarrow> fl_count fl' \<le> Suc (fl_count fl)"
  by (auto simp: push_def fl_take_def Let_def fl_update_nil_id dest!: free_internal_count dest: fl_count_pop
           split: if_splits list.splits sum.splits)

subsection \<open>Properties of the recycler\<close>

text \<open>
  C27: \<open>singleton\<close> and \<open>pair\<close> on a well-formed pool return exactly the requested
  one- and two-element arrays, whatever stale contents a reused buffer had, and keep the
  size-class invariant.
\<close>

theorem singleton_pair_spec:
  "fl_ok fl \<Longrightarrow>
   (\<exists>fl'. singleton fl x = Inr ([x], fl') \<and> fl_ok fl') \<and>
   (\<exists>fl'. pair fl a b = Inr ([a, b], fl') \<and> fl_ok fl')"
  by (rule conjI [OF singleton_result pair_result])

text \<open>
  C26: \<open>push\<close> on a well-formed pool and an array of length \<open>1..63\<close> returns the
  array with the new element appended (no stale element survives a reused buffer), keeps
  the invariant, and allocates a fresh buffer exactly when the next size class is empty:
  otherwise the number of pooled buffers is unchanged (one taken, one returned).
\<close>

theorem push_spec:
  assumes "fl_ok fl" "0 < length xs" "length xs < 64"
  shows "\<exists>fl'. push fl xs y = Inr (xs @ [y], fl') \<and> fl_ok fl' \<and>
               fl_count fl' = fl_count fl + (if fl ! length xs = [] then 1 else 0)"
  using push_result [OF assms, of y] push_count [OF assms] by blast

text \<open>
  C28: \<open>push\<close> fails its assertion on an empty array, and indexes out of the stack
  array (a panic) on an array of 64 or more elements.
\<close>

theorem push_errors:
  "push fl [] y = Inl Assertion_failed \<and>
   (fl_ok fl \<longrightarrow> 64 \<le> length xs \<longrightarrow> push fl xs y = Inl Index_out_of_bounds)"
  by (auto simp: push_def fl_take_def Let_def fl_ok_length)

text \<open>
  C29: \<open>free\<close> pools a buffer it has already deallocated: the next \<open>singleton\<close>
  reuses it and writes into freed memory.
\<close>

theorem free_then_reuse:
  assumes "fl_ok fl"
  shows "\<exists>fl'. free fl [x] = Inr fl' \<and> singleton fl' y = Inl Use_after_free"
proof -
  have "length fl = 64" using assms by (rule fl_ok_length)
  then have "fl \<noteq> []" and "0 < length fl" by auto
  with \<open>length fl = 64\<close> show ?thesis
    by (simp add: free_def free_internal_def singleton_def fl_take_def)
qed

subsection \<open>Witnesses\<close>

theorem singleton_pair_spec_witness:
  "fl_ok (fl_new () :: nat free_list) \<and>
   (\<exists>fl'. singleton (fl_new ()) (1 :: nat) = Inr ([1], fl') \<and> fl_ok fl') \<and>
   (\<exists>fl'. pair (fl_new ()) (1 :: nat) 2 = Inr ([1, 2], fl') \<and> fl_ok fl')"
proof -
  have ok: "fl_ok (fl_new () :: nat free_list)" by (rule fl_ok_new)
  from singleton_pair_spec [OF ok, of 1 1 2] ok show ?thesis by blast
qed

theorem push_spec_witness:
  "fl_ok (fl_new () :: nat free_list) \<and> 0 < length [1 :: nat] \<and> length [1 :: nat] < 64 \<and>
   (\<exists>fl'. push (fl_new ()) [1 :: nat] 2 = Inr ([1, 2], fl') \<and> fl_ok fl' \<and>
          fl_count fl' = fl_count (fl_new () :: nat free_list) + 1)"
proof -
  have ok: "fl_ok (fl_new () :: nat free_list)" by (rule fl_ok_new)
  have empty: "(fl_new () :: nat free_list) ! length [1 :: nat] = []"
    by (simp add: fl_new_def)
  have "\<exists>fl'. push (fl_new ()) [1 :: nat] 2 = Inr ([1] @ [2], fl') \<and> fl_ok fl' \<and>
          fl_count fl' = fl_count (fl_new () :: nat free_list) +
            (if (fl_new () :: nat free_list) ! length [1 :: nat] = [] then 1 else 0)"
    by (rule push_spec [OF ok]) simp_all
  then obtain fl' where p: "push (fl_new ()) [1 :: nat] 2 = Inr ([1] @ [2], fl')" "fl_ok fl'"
    "fl_count fl' = fl_count (fl_new () :: nat free_list) +
       (if (fl_new () :: nat free_list) ! length [1 :: nat] = [] then 1 else 0)"
    by blast
  have l: "0 < length [1 :: nat]" "length [1 :: nat] < 64" by simp_all
  have r: "push (fl_new ()) [1 :: nat] 2 = Inr ([1, 2], fl')" using p(1) by simp
  have c: "fl_count fl' = fl_count (fl_new () :: nat free_list) + 1" using p(3) empty by simp
  from ok l r p(2) c show ?thesis by blast
qed

theorem push_errors_witness:
  "push (fl_new ()) [] (0 :: nat) = Inl Assertion_failed \<and> fl_ok (fl_new () :: nat free_list) \<and>
   64 \<le> length (replicate 64 (0 :: nat)) \<and>
   push (fl_new ()) (replicate 64 (0 :: nat)) 0 = Inl Index_out_of_bounds"
proof -
  have ok: "fl_ok (fl_new () :: nat free_list)" by (rule fl_ok_new)
  have len: "64 \<le> length (replicate 64 (0 :: nat))" by simp
  from push_errors [of "fl_new ()" 0 "replicate 64 (0 :: nat)"] ok len show ?thesis by blast
qed

theorem free_then_reuse_witness:
  "fl_ok (fl_new () :: nat free_list) \<and>
   (\<exists>fl'. free (fl_new ()) [1 :: nat] = Inr fl' \<and> singleton fl' (2 :: nat) = Inl Use_after_free)"
proof -
  have ok: "fl_ok (fl_new () :: nat free_list)" by (rule fl_ok_new)
  from free_then_reuse [OF ok, of 1 2] ok show ?thesis by blast
qed

end
