(* ===== verification/Hamt.thy ===== *)
theory Hamt
  imports HashStream Node FreeList
begin

text \<open>
  The map facade of \<open>src/lib.rs\<close>: \<open>Hamt<K, V, S>\<close> owns the hash builder, the
  root cell and the free list. \<open>get\<close> walks the trie along the key's hash stream;
  \<open>insert\<close> walks it the same way and, at the cell where the walk ends, either
  overwrites a leaf's value, replaces the empty root by a leaf, grows a branch's child
  array by one (through \<open>FreeList::push\<close> and the swap loop that moves the new leaf
  to its rank), or splits a leaf whose key differs into a chain of single-child
  branches ending in a two-leaf branch.

  The hash builder \<open>S\<close> with \<open>key.hash(&mut hasher)\<close> is the function
  \<open>state :: 'k \<Rightarrow> hasher\<close> (the hasher after the key's bytes). The walk of
  \<open>get\<close> and the descent of \<open>insert\<close> terminate by the size of the trie; the split
  loop runs as long as the two keys' streams agree, so it is a
  \<^theory_text>\<open>partial_function (option)\<close> whose \<open>None\<close> is the non-terminating
  run of two keys with identical streams.
\<close>

record ('k, 'v) hamt =
  state :: "'k \<Rightarrow> hasher"
  root :: "('k, 'v) node"
  free_list :: "('k, 'v) node free_list"

definition hamt_new :: "('k \<Rightarrow> hasher) \<Rightarrow> ('k, 'v) hamt" where
  "hamt_new st = \<lparr>state = st, root = node_empty, free_list = fl_new ()\<rparr>"

definition key_hash :: "('k \<Rightarrow> hasher) \<Rightarrow> 'k \<Rightarrow> hash_stream" where
  "key_hash st key = hs_new (st key)"

function get_walk :: "'k \<Rightarrow> hash_stream \<Rightarrow> ('k, 'v) node \<Rightarrow> error + 'v option" where
  "get_walk key s (Leaf k v) = Inr (if k = key then Some v else None)"
| "get_walk key s (Branch m cs) =
     (if bm_is_empty m then Inr None
      else (case hs_next s of (i, s') \<Rightarrow>
        if is_set m (unat i) then
          (let n = set_bits_under m (unat i) in
           if n < length cs then get_walk key s' (cs ! n) else Inl Undefined_behaviour)
        else Inr None))"
  by pat_completeness auto
termination
  by (relation "measure (\<lambda>(_, _, t). size t)") (auto simp: size_nth_child)

definition hamt_get :: "('k, 'v) hamt \<Rightarrow> 'k \<Rightarrow> error + 'v option" where
  "hamt_get h key = get_walk key (key_hash (state h) key) (root h)"

text \<open>\<open>slice_from_raw(base, bits)\<close>: the child array as an owned slice of \<open>bits\<close> cells.\<close>

definition slice_from_raw :: "'a list \<Rightarrow> nat \<Rightarrow> 'a list" where
  "slice_from_raw cs len = take len cs"

text \<open>\<open>for i in (pos..(slice.len() - 1)).rev() { slice.swap(i, i + 1); }\<close>\<close>

definition shift_down :: "nat \<Rightarrow> 'a list \<Rightarrow> 'a list" where
  "shift_down pos xs = fold (\<lambda>i ys. slice_swap ys i (Suc i)) (rev [pos..<length xs - 1]) xs"

text \<open>
  The inner loop of the leaf-mismatch case: \<open>cur\<close> is the cell being built (always an
  empty branch when the loop reaches it), \<open>s\<close> and \<open>so\<close> the streams of the new key
  and of the displaced one, at the same depth.
\<close>

partial_function (option) split_loop ::
  "hash_stream \<Rightarrow> hash_stream \<Rightarrow> 'k \<Rightarrow> 'v \<Rightarrow> 'k \<Rightarrow> 'v \<Rightarrow> ('k, 'v) node \<Rightarrow> ('k, 'v) node free_list
   \<Rightarrow> (error + ('k, 'v) node \<times> ('k, 'v) node free_list) option" where
  "split_loop s so key value key_other value_other cur fl =
     (case hs_next s of (i, s') \<Rightarrow> case hs_next so of (j, so') \<Rightarrow>
      (case cur of
         Leaf _ _ \<Rightarrow> Some (Inl Unreachable)
       | Branch _ _ \<Rightarrow>
          (if i = j then
             (let cur1 = node_map_set cur (unat i) in
              case singleton fl node_empty of
                Inl e \<Rightarrow> Some (Inl e)
              | Inr (single, fl1) \<Rightarrow>
                  do {
                    r \<leftarrow> split_loop s' so' key value key_other value_other (single ! 0) fl1;
                    Some (case r of
                            Inl e \<Rightarrow> Inl e
                          | Inr (child, fl2) \<Rightarrow> Inr (snd (node_set_base cur1 (single[0 := child])), fl2))
                  })
           else
             (let cur1 = node_map_set (node_map_set cur (unat i)) (unat j);
                  (k1, v1, k2, v2) =
                    (if j < i then (key_other, value_other, key, value)
                     else (key, value, key_other, value_other))
              in case pair fl (node_key_value k1 v1) (node_key_value k2 v2) of
                   Inl e \<Rightarrow> Some (Inl e)
                 | Inr (pr, fl1) \<Rightarrow> Some (Inr (snd (node_set_base cur1 pr), fl1))))))"

declare split_loop.simps [code]

function ins_walk ::
  "('k \<Rightarrow> hasher) \<Rightarrow> 'k \<Rightarrow> 'v \<Rightarrow> hash_stream \<Rightarrow> nat \<Rightarrow> ('k, 'v) node \<Rightarrow> ('k, 'v) node free_list
   \<Rightarrow> (error + 'v option \<times> ('k, 'v) node \<times> ('k, 'v) node free_list) option" where
  "ins_walk st key value s depth (Leaf k v) fl =
     (if k = key then
        (case node_set_value (Leaf k v) value of (old, cur') \<Rightarrow> Some (Inr (old, cur', fl)))
      else
        (let stream_other = hs_skip depth (key_hash st k) in
         case split_loop s stream_other key value k v node_empty fl of
           None \<Rightarrow> None
         | Some (Inl e) \<Rightarrow> Some (Inl e)
         | Some (Inr (cur', fl')) \<Rightarrow> Some (Inr (None, cur', fl'))))"
| "ins_walk st key value s depth (Branch m cs) fl =
     (case hs_next s of (i, s') \<Rightarrow>
      if bm_is_empty m then Some (Inr (None, node_key_value key value, fl))
      else if is_set m (unat i) then
        (let n = set_bits_under m (unat i) in
         if n < length cs then
           (case ins_walk st key value s' (Suc depth) (cs ! n) fl of
              None \<Rightarrow> None
            | Some (Inl e) \<Rightarrow> Some (Inl e)
            | Some (Inr (old, c', fl')) \<Rightarrow> Some (Inr (old, Branch m (cs[n := c']), fl')))
         else Some (Inl Undefined_behaviour))
      else
        (let bits = set_bits m;
             pos = set_bits_under m (unat i);
             cur = node_map_set (Branch m cs) (unat i);
             slc = slice_from_raw cs bits
         in case push fl slc (node_key_value key value) of
              Inl e \<Rightarrow> Some (Inl e)
            | Inr (slc', fl') \<Rightarrow> Some (Inr (None, snd (node_set_base cur (shift_down pos slc')), fl'))))"
  by pat_completeness auto
termination
  by (relation "measure (\<lambda>(_, _, _, _, _, t, _). size t)") (auto simp: size_nth_child)

definition hamt_insert :: "('k, 'v) hamt \<Rightarrow> 'k \<Rightarrow> 'v \<Rightarrow> (error + 'v option \<times> ('k, 'v) hamt) option" where
  "hamt_insert h key value =
     (case ins_walk (state h) key value (key_hash (state h) key) 0 (root h) (free_list h) of
        None \<Rightarrow> None
      | Some (Inl e) \<Rightarrow> Some (Inl e)
      | Some (Inr (old, r, fl)) \<Rightarrow> Some (Inr (old, h\<lparr>root := r, free_list := fl\<rparr>)))"

subsection \<open>The trie invariant\<close>

text \<open>
  \<open>key_idx st k n\<close> is the \<open>n\<close>-th index of the key's stream and
  \<open>key_path st k d\<close> its first \<open>d\<close> indices. A cell reached by the path \<open>p\<close>
  is well formed when a leaf's key has path \<open>p\<close>, and a branch's child array has
  one cell per set bit, the child of bit \<open>j\<close> (at rank \<open>set_bits_under j\<close>)
  being well formed under \<open>p @ [j]\<close>.
\<close>

definition key_idx :: "('k \<Rightarrow> hasher) \<Rightarrow> 'k \<Rightarrow> nat \<Rightarrow> nat" where
  "key_idx st k n = unat (hs_nth (key_hash st k) n)"

definition key_path :: "('k \<Rightarrow> hasher) \<Rightarrow> 'k \<Rightarrow> nat \<Rightarrow> nat list" where
  "key_path st k d = map (key_idx st k) [0..<d]"

function wf_node :: "('k \<Rightarrow> hasher) \<Rightarrow> nat list \<Rightarrow> ('k, 'v) node \<Rightarrow> bool" where
  "wf_node st p (Leaf k v) = (key_path st k (length p) = p)"
| "wf_node st p (Branch m cs) =
     (if length cs = set_bits m
      then (\<forall>j \<in> set (bm_indices m). wf_node st (p @ [j]) (cs ! set_bits_under m j))
      else False)"
  by pat_completeness auto
termination
proof (relation "measure (\<lambda>(_, _, t). size t)")
  fix st :: "'k \<Rightarrow> hasher" and p :: "nat list" and m and cs :: "('k, 'v) node list" and j :: nat
  assume "length cs = set_bits m" "j \<in> set (bm_indices m)"
  then have "set_bits_under m j < length cs"
    using set_bits_under_lt_set_bits by simp
  then show "((st, p @ [j], cs ! set_bits_under m j), st, p, Branch m cs) \<in> measure (\<lambda>(_, _, t). size t)"
    by (simp add: size_nth_child)
qed simp

text \<open>
  The shape \<open>insert\<close> builds: every branch holds at least two entries (only the empty
  root branch of \<open>Hamt::new\<close> holds none), so no branch is a needless level.
\<close>

fun compact :: "('k, 'v) node \<Rightarrow> bool" where
  "compact (Leaf k v) = True"
| "compact (Branch m cs) = (2 \<le> length (leaves (Branch m cs)) \<and> (\<forall>c \<in> set cs. compact c))"

text \<open>The number of levels of a trie (a leaf is 0, a branch one more than its deepest child).\<close>

fun node_height :: "('k, 'v) node \<Rightarrow> nat" where
  "node_height (Leaf k v) = 0"
| "node_height (Branch m cs) = Suc (fold max (map node_height cs) 0)"

definition hamt_inv :: "('k, 'v) hamt \<Rightarrow> bool" where
  "hamt_inv h = (wf_node (state h) [] (root h) \<and> fl_ok (free_list h) \<and>
                 (root h = node_empty \<or> compact (root h)))"

text \<open>The abstraction of a map: the finite map of the trie's entries.\<close>

definition hamt_lookup :: "('k, 'v) hamt \<Rightarrow> 'k \<Rightarrow> 'v option" where
  "hamt_lookup h = map_of (leaves (root h))"

text \<open>
  Keys whose streams differ somewhere can be told apart by the trie; two distinct keys
  with identical infinite streams would make the split loop run forever.
\<close>

definition separable :: "('k \<Rightarrow> hasher) \<Rightarrow> 'k \<Rightarrow> ('k, 'v) node \<Rightarrow> bool" where
  "separable st key t =
     (\<forall>(k, v) \<in> set (leaves t). k \<noteq> key \<longrightarrow> (\<exists>n. key_idx st key n \<noteq> key_idx st k n))"

subsection \<open>Stream positions and paths\<close>

lemma key_idx_lt: "key_idx st k n < 64"
  by (simp add: key_idx_def key_hash_def hs_nth_lt)

lemma key_path_Suc: "key_path st k (Suc d) = key_path st k d @ [key_idx st k d]"
  by (simp add: key_path_def)

lemma length_key_path [simp]: "length (key_path st k d) = d"
  by (simp add: key_path_def)

lemma key_path_agree:
  "key_path st a d = key_path st b d \<Longrightarrow> n < d \<Longrightarrow> key_idx st a n = key_idx st b n"
proof -
  assume e: "key_path st a d = key_path st b d" and n: "n < d"
  from e have "key_path st a d ! n = key_path st b d ! n" by simp
  with n show ?thesis by (simp add: key_path_def)
qed

lemma hs_next_key: "hs_next (hs_skip d (key_hash st k)) = (hs_nth (key_hash st k) d, hs_skip (Suc d) (key_hash st k))"
  by (rule hs_next_skip)

lemma hs_nth_key_eq_iff:
  "(hs_nth (key_hash st k1) d = hs_nth (key_hash st k2) d) = (key_idx st k1 d = key_idx st k2 d)"
  by (simp add: key_idx_def word_unat_eq_iff)

lemma hs_nth_key_less_iff:
  "(hs_nth (key_hash st k1) d < hs_nth (key_hash st k2) d) = (key_idx st k1 d < key_idx st k2 d)"
  by (simp add: key_idx_def word_less_nat_alt)

lemma unat_hs_nth_key: "unat (hs_nth (key_hash st k) d) = key_idx st k d"
  by (simp add: key_idx_def)

subsection \<open>The swap loop\<close>

lemma shift_fold:
  "pos \<le> length zs \<Longrightarrow>
   fold (\<lambda>i ys. slice_swap ys i (Suc i)) (rev [pos..<length zs]) (zs @ x # ws) =
   take pos zs @ x # drop pos zs @ ws"
proof (induction zs arbitrary: ws rule: rev_induct)
  case Nil
  then show ?case by simp
next
  case (snoc z zs)
  show ?case
  proof (cases "pos = Suc (length zs)")
    case True
    then show ?thesis by simp
  next
    case False
    with snoc.prems have le: "pos \<le> length zs" by simp
    then have "rev [pos..<length (zs @ [z])] = length zs # rev [pos..<length zs]"
      by (simp add: upt_Suc_append)
    moreover have "slice_swap ((zs @ [z]) @ x # ws) (length zs) (Suc (length zs)) = zs @ x # z # ws"
      using slice_swap_adjacent [of zs z x ws] by simp
    ultimately show ?thesis using snoc.IH [OF le, of "z # ws"] le by simp
  qed
qed

lemma shift_down_append:
  "pos \<le> length xs \<Longrightarrow> shift_down pos (xs @ [x]) = insert_at pos x xs"
  using shift_fold [of pos xs x "[]"] by (simp add: shift_down_def insert_at_def)

subsection \<open>Consequences of the invariant\<close>

lemma wf_child:
  assumes "wf_node st p (Branch m cs)" "is_set m j"
  shows "set_bits_under m j < length cs \<and> wf_node st (p @ [j]) (cs ! set_bits_under m j)"
  using assms set_bits_under_lt_set_bits [OF assms(2)] by (auto split: if_splits)

lemma wf_branch_len: "wf_node st p (Branch m cs) \<Longrightarrow> length cs = set_bits m"
  by (auto split: if_splits)

lemma wf_leaves_path:
  "wf_node st p t \<Longrightarrow> (k, v) \<in> set (leaves t) \<Longrightarrow> key_path st k (length p) = p"
proof (induction st p t rule: wf_node.induct)
  case (1 st p k' v')
  then show ?case by simp
next
  case (2 st p m cs)
  from "2.prems"(2) obtain c where c: "c \<in> set cs" "(k, v) \<in> set (leaves c)" by auto
  then obtain n where n: "n < length cs" "cs ! n = c" by (auto simp: in_set_conv_nth)
  have len: "length cs = set_bits m" using "2.prems"(1) by (rule wf_branch_len)
  let ?j = "bm_indices m ! n"
  have jin: "?j \<in> set (bm_indices m)" using nth_mem [of n "bm_indices m"] n len by (simp add: set_bits_filter)
  have rj: "set_bits_under m ?j = n" using n len by (simp add: set_bits_filter rank_of_indices_nth)
  have "wf_node st (p @ [?j]) c" using "2.prems"(1) jin rj n len by auto
  then have "key_path st k (length (p @ [?j])) = p @ [?j]"
    using "2.IH" [OF len jin] c rj n by auto
  then show ?case by (simp add: key_path_Suc)
qed

lemma wf_leaf_slot:
  assumes wf: "wf_node st p (Branch m cs)" and n: "n < length cs" and kv: "(k, v) \<in> set (leaves (cs ! n))"
  shows "key_idx st k (length p) = bm_indices m ! n \<and> is_set m (bm_indices m ! n)"
proof -
  have len: "length cs = length (bm_indices m)"
    using wf_branch_len [OF wf] by (simp add: set_bits_filter)
  let ?j = "bm_indices m ! n"
  have set: "is_set m ?j" using nth_mem [of n "bm_indices m"] n len by simp
  have "set_bits_under m ?j = n" using n len by (simp add: rank_of_indices_nth)
  with wf_child [OF wf set] have "wf_node st (p @ [?j]) (cs ! n)" by simp
  from wf_leaves_path [OF this kv] have "key_path st k (Suc (length p)) = p @ [?j]" by simp
  with set show ?thesis by (simp add: key_path_Suc)
qed

lemma wf_other_children:
  assumes wf: "wf_node st p (Branch m cs)" and n': "n' < length cs"
    and ne: "\<And>n. is_set m (key_idx st q (length p)) \<Longrightarrow> n = set_bits_under m (key_idx st q (length p)) \<Longrightarrow> n' \<noteq> n"
  shows "q \<notin> fst ` set (leaves (cs ! n'))"
proof
  assume "q \<in> fst ` set (leaves (cs ! n'))"
  then obtain v where kv: "(q, v) \<in> set (leaves (cs ! n'))" by auto
  from wf_leaf_slot [OF wf n' kv] have slot: "key_idx st q (length p) = bm_indices m ! n'"
    and set: "is_set m (bm_indices m ! n')" by simp_all
  have len: "length cs = length (bm_indices m)"
    using wf_branch_len [OF wf] by (simp add: set_bits_filter)
  have "set_bits_under m (key_idx st q (length p)) = n'"
    using slot n' len by (simp add: rank_of_indices_nth)
  moreover have iset: "is_set m (key_idx st q (length p))" using set slot by simp
  ultimately show False using ne [of n', OF iset] by simp
qed

lemma wf_branch_lookup:
  assumes wf: "wf_node st p (Branch m cs)"
  shows "map_of (leaves (Branch m cs)) q =
           (if is_set m (key_idx st q (length p))
            then map_of (leaves (cs ! set_bits_under m (key_idx st q (length p)))) q else None)"
proof (cases "is_set m (key_idx st q (length p))")
  case True
  from wf_child [OF wf True] have n: "set_bits_under m (key_idx st q (length p)) < length cs" by simp
  have "map_of (concat (map leaves cs)) q = map_of (leaves (cs ! set_bits_under m (key_idx st q (length p)))) q"
    by (rule map_of_concat_nth [OF n]) (rule wf_other_children [OF wf], simp_all)
  with True show ?thesis by simp
next
  case False
  have "map_of (concat (map leaves cs)) q = None"
    by (rule map_of_concat_none) (rule wf_other_children [OF wf], use False in simp_all)
  with False show ?thesis by simp
qed

lemma separable_child:
  "separable st key (Branch m cs) \<Longrightarrow> n < length cs \<Longrightarrow> separable st key (cs ! n)"
  unfolding separable_def by (auto dest!: nth_mem)

subsection \<open>Lookup\<close>

lemma get_walk_branch:
  "get_walk q (hs_skip d (key_hash st q)) (Branch m cs) =
     (if bm_is_empty m then Inr None
      else if is_set m (key_idx st q d) then
        (if set_bits_under m (key_idx st q d) < length cs
         then get_walk q (hs_skip (Suc d) (key_hash st q)) (cs ! set_bits_under m (key_idx st q d))
         else Inl Undefined_behaviour)
      else Inr None)"
  by (simp add: hs_next_key key_idx_def Let_def)

lemma get_walk_correct:
  "wf_node st p t \<Longrightarrow> get_walk q (hs_skip (length p) (key_hash st q)) t = Inr (map_of (leaves t) q)"
proof (induction st p t rule: wf_node.induct)
  case (1 st p k v)
  then show ?case by simp
next
  case (2 st p m cs)
  note wf = "2.prems"
  let ?i = "key_idx st q (length p)"
  have len: "length cs = set_bits m" by (rule wf_branch_len [OF wf])
  show ?case
  proof (cases "bm_is_empty m")
    case True
    then have "set_bits m = 0" by (simp add: bm_is_empty_iff set_bits_card)
    with len True show ?thesis by (subst get_walk_branch) simp
  next
    case nonempty: False
    show ?thesis
    proof (cases "is_set m ?i")
      case True
      from wf_child [OF wf True] have n: "set_bits_under m ?i < length cs"
        and wfc: "wf_node st (p @ [?i]) (cs ! set_bits_under m ?i)" by simp_all
      have "get_walk q (hs_skip (Suc (length p)) (key_hash st q)) (cs ! set_bits_under m ?i) =
            Inr (map_of (leaves (cs ! set_bits_under m ?i)) q)"
        using "2.IH" [OF len _ wfc] True by simp
      with nonempty True n wf_branch_lookup [OF wf, of q] show ?thesis
        by (subst get_walk_branch) simp
    next
      case False
      with nonempty wf_branch_lookup [OF wf, of q] show ?thesis by (subst get_walk_branch) simp
    qed
  qed
qed

lemma wf_distinct: "wf_node st p t \<Longrightarrow> distinct (map fst (leaves t))"
proof (induction st p t rule: wf_node.induct)
  case (1 st p k v)
  then show ?case by simp
next
  case (2 st p m cs)
  note wf = "2.prems"
  have len: "length cs = length (bm_indices m)"
    using wf_branch_len [OF wf] by (simp add: set_bits_filter)
  have "distinct (concat (map (map fst \<circ> leaves) cs))"
  proof (rule distinct_concat_nth)
    fix i assume i: "i < length (map (map fst \<circ> leaves) cs)"
    then have jin: "bm_indices m ! i \<in> set (bm_indices m)" using len by (simp del: set_bm_indices)
    have r: "set_bits_under m (bm_indices m ! i) = i" using i len by (simp add: rank_of_indices_nth)
    have "wf_node st (p @ [bm_indices m ! i]) (cs ! i)" using wf jin r by (auto split: if_splits)
    then show "distinct (map (map fst \<circ> leaves) cs ! i)"
      using "2.IH" [OF wf_branch_len [OF wf] jin] r i by simp
  next
    fix i j assume ij: "i < j" "j < length (map (map fst \<circ> leaves) cs)"
    show "set (map (map fst \<circ> leaves) cs ! i) \<inter> set (map (map fst \<circ> leaves) cs ! j) = {}"
    proof (rule ccontr)
      assume "set (map (map fst \<circ> leaves) cs ! i) \<inter> set (map (map fst \<circ> leaves) cs ! j) \<noteq> {}"
      then obtain k vi vj where ki: "(k, vi) \<in> set (leaves (cs ! i))" and kj: "(k, vj) \<in> set (leaves (cs ! j))"
        using ij by auto
      have "bm_indices m ! i = bm_indices m ! j"
        using wf_leaf_slot [OF wf _ ki] wf_leaf_slot [OF wf _ kj] ij by simp
      with ij len distinct_bm_indices [of m] show False by (simp add: nth_eq_iff_index_eq)
    qed
  qed
  then show ?case by (simp add: map_concat)
qed

subsection \<open>The map facade\<close>

lemma hamt_get_lookup: "hamt_inv h \<Longrightarrow> hamt_get h k = Inr (hamt_lookup h k)"
  using get_walk_correct [of "state h" "[]" "root h" k]
  by (simp add: hamt_inv_def hamt_get_def hamt_lookup_def key_hash_def hs_skip_def)

lemma dom_hamt_lookup: "dom (hamt_lookup h) = fst ` set (leaves (root h))"
  by (simp add: hamt_lookup_def dom_map_of_conv_image_fst)

lemma hamt_new_inv: "hamt_inv (hamt_new st)"
  by (simp add: hamt_inv_def hamt_new_def node_empty_def bm_indices_def fl_ok_new)

subsection \<open>Uniqueness of the compact trie\<close>

lemma compact_leaves:
  assumes "compact t" shows "leaves t \<noteq> []"
proof (cases t)
  case (Leaf k v)
  then show ?thesis by simp
next
  case (Branch m cs)
  with assms have "2 \<le> length (leaves t)" by (simp del: leaves.simps)
  then show ?thesis by auto
qed

lemma wf_card_dom: "wf_node st p t \<Longrightarrow> card (dom (map_of (leaves t))) = length (leaves t)"
  using distinct_card [of "map fst (leaves t)"] wf_distinct [of st p t]
  by (simp add: dom_map_of_conv_image_fst)

lemma wf_child_map:
  assumes wf: "wf_node st p (Branch m cs)" and set: "is_set m j"
  shows "map_of (leaves (cs ! set_bits_under m j)) =
           (\<lambda>q. if key_idx st q (length p) = j then map_of (leaves (Branch m cs)) q else None)"
proof
  fix q
  have n: "set_bits_under m j < length cs" using wf_child [OF wf set] by simp
  have len: "length cs = length (bm_indices m)" using wf_branch_len [OF wf] by (simp add: set_bits_filter)
  have jn: "bm_indices m ! set_bits_under m j = j"
    using indices_at_rank [OF set] .
  show "map_of (leaves (cs ! set_bits_under m j)) q =
          (if key_idx st q (length p) = j then map_of (leaves (Branch m cs)) q else None)"
  proof (cases "key_idx st q (length p) = j")
    case True
    with set wf_branch_lookup [OF wf, of q] show ?thesis by simp
  next
    case False
    have "q \<notin> fst ` set (leaves (cs ! set_bits_under m j))"
    proof
      assume "q \<in> fst ` set (leaves (cs ! set_bits_under m j))"
      then obtain v where "(q, v) \<in> set (leaves (cs ! set_bits_under m j))" by auto
      from wf_leaf_slot [OF wf n this] jn False show False by simp
    qed
    with False show ?thesis by (simp add: map_of_eq_None_iff)
  qed
qed

lemma wf_is_set_dom:
  assumes wf: "wf_node st p (Branch m cs)" and ne: "\<forall>c \<in> set cs. leaves c \<noteq> []"
  shows "is_set m j = (\<exists>q \<in> dom (map_of (leaves (Branch m cs))). key_idx st q (length p) = j)"
proof
  assume set: "is_set m j"
  have n: "set_bits_under m j < length cs" using wf_child [OF wf set] by simp
  then have "leaves (cs ! set_bits_under m j) \<noteq> []" using ne nth_mem [OF n] by blast
  then obtain q v where qv: "(q, v) \<in> set (leaves (cs ! set_bits_under m j))"
    by (metis list.set_sel(1) surj_pair)
  have "map_of (leaves (cs ! set_bits_under m j)) q \<noteq> None"
    using qv by (auto simp: map_of_eq_None_iff intro: rev_image_eqI)
  then show "\<exists>q \<in> dom (map_of (leaves (Branch m cs))). key_idx st q (length p) = j"
    unfolding wf_child_map [OF wf set] by (auto split: if_splits)
next
  assume "\<exists>q \<in> dom (map_of (leaves (Branch m cs))). key_idx st q (length p) = j"
  then obtain q where "map_of (leaves (Branch m cs)) q \<noteq> None" "key_idx st q (length p) = j" by auto
  with wf_branch_lookup [OF wf, of q] show "is_set m j" by (auto split: if_splits)
qed

lemma compact_branch_entries:
  "wf_node st p (Branch m cs) \<Longrightarrow> compact (Branch m cs) \<Longrightarrow> 2 \<le> card (dom (map_of (leaves (Branch m cs))))"
  by (subst wf_card_dom) (simp_all del: leaves.simps)

lemma wf_compact_leaf_unique:
  assumes wf: "wf_node st p t" and c: "compact t" and eq: "map_of (leaves t) = map_of [(k, v)]"
  shows "t = Leaf k v"
proof (cases t)
  case (Leaf k' v')
  with eq have "map_of [(k', v')] k = map_of [(k, v)] k" by (simp only: leaves.simps)
  then have "k = k' \<and> v = v'" by (auto split: if_splits)
  with Leaf show ?thesis by simp
next
  case (Branch m cs)
  have "2 \<le> card (dom (map_of (leaves t)))" using compact_branch_entries wf c Branch by blast
  moreover have "dom (map_of (leaves t)) = {k}" using eq by (auto simp: dom_def)
  ultimately show ?thesis by simp
qed

lemma wf_child_map_eq:
  assumes wf1: "wf_node st p (Branch m cs)" and wf2: "wf_node st p (Branch m cs2)"
    and eq: "map_of (leaves (Branch m cs)) = map_of (leaves (Branch m cs2))" and set: "is_set m j"
  shows "map_of (leaves (cs ! set_bits_under m j)) = map_of (leaves (cs2 ! set_bits_under m j))"
proof -
  have "map_of (leaves (cs ! set_bits_under m j)) =
          (\<lambda>q. if key_idx st q (length p) = j then map_of (leaves (Branch m cs)) q else None)"
    by (rule wf_child_map [OF wf1 set])
  also have "\<dots> = (\<lambda>q. if key_idx st q (length p) = j then map_of (leaves (Branch m cs2)) q else None)"
    unfolding eq ..
  also have "\<dots> = map_of (leaves (cs2 ! set_bits_under m j))"
    by (rule wf_child_map [OF wf2 set, symmetric])
  finally show ?thesis .
qed

lemma wf_compact_unique:
  "wf_node st p t1 \<Longrightarrow> wf_node st p t2 \<Longrightarrow> compact t1 \<Longrightarrow> compact t2 \<Longrightarrow>
   map_of (leaves t1) = map_of (leaves t2) \<Longrightarrow> t1 = t2"
proof (induction st p t1 arbitrary: t2 rule: wf_node.induct)
  case (1 st p k v)
  have "map_of (leaves t2) = map_of [(k, v)]" using "1.prems"(5) by (simp only: leaves.simps)
  from wf_compact_leaf_unique [OF "1.prems"(2,4) this] show ?case by simp
next
  case (2 st p m cs)
  note wf1 = "2.prems"(1) and wf2 = "2.prems"(2) and eq = "2.prems"(5)
  have "2 \<le> card (dom (map_of (leaves t2)))"
    using compact_branch_entries [OF wf1 "2.prems"(3)] eq by simp
  then obtain m2 cs2 where t2: "t2 = Branch m2 cs2"
    by (cases t2) (simp_all add: dom_map_of_conv_image_fst del: leaves.simps, simp)
  note wf2 = wf2 [unfolded t2] and eq = eq [unfolded t2]
  have ne1: "\<forall>c \<in> set cs. leaves c \<noteq> []" using "2.prems"(3) compact_leaves by auto
  have ne2: "\<forall>c \<in> set cs2. leaves c \<noteq> []" using "2.prems"(4) compact_leaves t2 by auto
  have mm: "m = m2"
    by (rule bitmap_eqI) (simp only: wf_is_set_dom [OF wf1 ne1] wf_is_set_dom [OF wf2 ne2] eq)
  note wf2 = wf2 [folded mm] and eq = eq [folded mm]
  have len: "length cs = set_bits m" "length cs2 = set_bits m"
    using wf_branch_len [OF wf1] wf_branch_len [OF wf2] by simp_all
  have "cs ! n = cs2 ! n" if n: "n < length cs" for n
  proof -
    let ?j = "bm_indices m ! n"
    have jin: "?j \<in> set (bm_indices m)" using n len by (simp add: set_bits_filter del: set_bm_indices)
    then have set: "is_set m ?j" by simp
    have r: "set_bits_under m ?j = n" using n len by (simp add: set_bits_filter rank_of_indices_nth)
    have "wf_node st (p @ [?j]) (cs ! n)" "wf_node st (p @ [?j]) (cs2 ! n)"
      using wf_child [OF wf1 set] wf_child [OF wf2 set] r by simp_all
    moreover have "compact (cs ! n)" "compact (cs2 ! n)" using "2.prems"(3,4) n len t2 by auto
    moreover have "map_of (leaves (cs ! n)) = map_of (leaves (cs2 ! n))"
      using wf_child_map_eq [OF wf1 wf2 eq set] r by simp
    ultimately show ?thesis using "2.IH" [OF len(1) jin] r by simp
  qed
  with len mm t2 show ?case by (simp add: nth_equalityI)
qed

lemma hamt_root_empty_iff:
  assumes "hamt_inv h" shows "(root h = node_empty) = (hamt_lookup h = Map.empty)"
proof
  assume "root h = node_empty"
  then show "hamt_lookup h = Map.empty" by (simp add: hamt_lookup_def node_empty_def)
next
  assume e: "hamt_lookup h = Map.empty"
  show "root h = node_empty"
  proof (rule ccontr)
    assume "root h \<noteq> node_empty"
    with assms have "leaves (root h) \<noteq> []" by (auto simp: hamt_inv_def dest: compact_leaves)
    then have "dom (hamt_lookup h) \<noteq> {}" by (simp add: dom_hamt_lookup)
    with e show False by simp
  qed
qed

lemma hamt_roots_unique:
  assumes inv1: "hamt_inv h1" and inv2: "hamt_inv h2" and st: "state h1 = state h2"
    and eq: "hamt_lookup h1 = hamt_lookup h2"
  shows "root h1 = root h2"
proof (cases "root h1 = node_empty")
  case True
  with hamt_root_empty_iff [OF inv1] hamt_root_empty_iff [OF inv2] eq show ?thesis by simp
next
  case False
  then have "root h2 \<noteq> node_empty"
    using hamt_root_empty_iff [OF inv1] hamt_root_empty_iff [OF inv2] eq by simp
  with False inv1 inv2 st eq show ?thesis
    by (intro wf_compact_unique [of "state h1" "[]"]) (auto simp: hamt_inv_def hamt_lookup_def)
qed

lemma compact_node_drop:
  "compact t \<Longrightarrow> \<exists>k v. node_drop t = Inr [(k, v)] \<and> (k, v) \<in> set (leaves t)"
proof (induction t rule: node_drop.induct)
  case (3 m c cs)
  then have "compact c" by simp
  with "3.IH" show ?case by auto
qed simp_all

lemma compact_branch_depth:
  assumes wf: "wf_node st p (Branch m cs)" and c: "compact (Branch m cs)"
    and sep: "\<forall>a \<in> fst ` set (leaves (Branch m cs)). \<forall>b \<in> fst ` set (leaves (Branch m cs)).
                a \<noteq> b \<longrightarrow> (\<exists>n < D. key_idx st a n \<noteq> key_idx st b n)"
  shows "length p < D"
proof -
  have "2 \<le> length (leaves (Branch m cs))" using c by (simp only: compact.simps)
  then obtain k1 v1 k2 v2 where in1: "(k1, v1) \<in> set (leaves (Branch m cs))"
    and in2: "(k2, v2) \<in> set (leaves (Branch m cs))" and ne: "k1 \<noteq> k2"
    by (rule two_distinct_keys [OF wf_distinct [OF wf]])
  have "k1 \<in> fst ` set (leaves (Branch m cs))" "k2 \<in> fst ` set (leaves (Branch m cs))"
    using in1 in2 by force+
  with sep ne obtain n where n: "n < D" and d: "key_idx st k1 n \<noteq> key_idx st k2 n" by blast
  have "\<not> n < length p"
    using key_path_agree [OF trans [OF wf_leaves_path [OF wf in1] wf_leaves_path [OF wf in2, symmetric]]] d
    by blast
  with n show ?thesis by simp
qed

lemma wf_height_bound:
  "wf_node st p t \<Longrightarrow> compact t \<Longrightarrow> length p \<le> D \<Longrightarrow>
   \<forall>a \<in> fst ` set (leaves t). \<forall>b \<in> fst ` set (leaves t). a \<noteq> b \<longrightarrow> (\<exists>n < D. key_idx st a n \<noteq> key_idx st b n) \<Longrightarrow>
   length p + node_height t \<le> D"
proof (induction st p t rule: wf_node.induct)
  case (1 st p k v)
  then show ?case by simp
next
  case (2 st p m cs)
  note wf = "2.prems"(1) and sep = "2.prems"(4)
  have lt: "length p < D" by (rule compact_branch_depth [OF wf "2.prems"(2) sep])
  have len: "length cs = set_bits m" by (rule wf_branch_len [OF wf])
  have ch: "length p + Suc (node_height (cs ! i)) \<le> D" if i: "i < length cs" for i
  proof -
    let ?j = "bm_indices m ! i"
    have jin: "?j \<in> set (bm_indices m)" using i len by (simp add: set_bits_filter del: set_bm_indices)
    then have set: "is_set m ?j" by simp
    have r: "set_bits_under m ?j = i" using i len by (simp add: set_bits_filter rank_of_indices_nth)
    have wfc: "wf_node st (p @ [?j]) (cs ! set_bits_under m ?j)" using wf_child [OF wf set] by simp
    have cc: "compact (cs ! set_bits_under m ?j)" using "2.prems"(2) i r by simp
    have "cs ! set_bits_under m ?j \<in> set cs" using i r by simp
    then have sub: "fst ` set (leaves (cs ! set_bits_under m ?j)) \<subseteq> fst ` set (leaves (Branch m cs))"
      by (intro image_mono) auto
    have sepc: "\<forall>a \<in> fst ` set (leaves (cs ! set_bits_under m ?j)). \<forall>b \<in> fst ` set (leaves (cs ! set_bits_under m ?j)).
        a \<noteq> b \<longrightarrow> (\<exists>n < D. key_idx st a n \<noteq> key_idx st b n)"
      by (rule ball_pairs_mono [OF sub sep])
    have "length (p @ [?j]) + node_height (cs ! set_bits_under m ?j) \<le> D"
      by (rule "2.IH" [OF len jin wfc cc _ sepc]) (use lt in simp)
    then show ?thesis using r by simp
  qed
  have "\<forall>x \<in> set (map node_height cs). x \<le> D - Suc (length p)"
  proof
    fix x assume "x \<in> set (map node_height cs)"
    then obtain i where i: "i < length cs" and x: "x = node_height (cs ! i)" by (auto simp: in_set_conv_nth)
    from ch [OF i] x show "x \<le> D - Suc (length p)" by simp
  qed
  with lt show ?case using fold_max_le [of "map node_height cs" "D - Suc (length p)" 0] by simp
qed

text \<open>
  C21: the swap loop of \<open>insert\<close> (\<open>for i in (pos..len - 1).rev() { swap(i, i + 1) }\<close>)
  on a child array whose new last cell is \<open>x\<close> is insertion of \<open>x\<close> at \<open>pos\<close>: the
  cells before \<open>pos\<close> stay, the new cell lands at \<open>pos\<close>, the rest move up by one.
\<close>

theorem shift_down_insert_at:
  assumes "pos \<le> length xs"
  shows "shift_down pos (xs @ [x]) = take pos xs @ x # drop pos xs"
  using shift_fold [OF assms, of x "[]"] by (simp add: shift_down_def)

theorem shift_down_insert_at_witness:
  "shift_down 1 [1, 2, 3 :: nat] = [1, 3, 2]"
  using shift_down_insert_at [of 1 "[1, 2 :: nat]" 3] by simp

end
