(* ===== verification/Hamt_Insert.thy ===== *)
theory Hamt_Insert
  imports Hamt
begin

text \<open>
  Correctness of \<open>Hamt::insert\<close> (\<open>src/lib.rs\<close>) against the map of the trie's
  entries: the split loop builds, for two keys whose streams first differ at some depth,
  a chain of single-child branches ending in a two-leaf branch; growing a branch keeps
  its children in rank order; overwriting descends to the key's leaf. Each case keeps
  the trie invariant \<open>wf_node\<close> and the free list's \<open>fl_ok\<close>. When the two
  streams never differ the split loop does not return.
\<close>

text \<open>
  The shape the split loop builds: \<open>chain xs t\<close> is a chain of single-child branches
  along the indices \<open>xs\<close> above \<open>t\<close>, and \<open>pair_node\<close> the two-leaf branch at
  the first depth where the streams differ, the leaf with the smaller index first.
\<close>

fun chain :: "nat list \<Rightarrow> ('k, 'v) node \<Rightarrow> ('k, 'v) node" where
  "chain [] t = t"
| "chain (x # xs) t = Branch (bm_set bm_empty x) [chain xs t]"

definition pair_node ::
  "('k \<Rightarrow> hasher) \<Rightarrow> 'k \<Rightarrow> 'v \<Rightarrow> 'k \<Rightarrow> 'v \<Rightarrow> nat \<Rightarrow> ('k, 'v) node" where
  "pair_node st key value ko vo d =
     (let i = key_idx st key d; j = key_idx st ko d
      in Branch (bm_set (bm_set bm_empty i) j)
           (if j < i then [Leaf ko vo, Leaf key value] else [Leaf key value, Leaf ko vo]))"

text \<open>
  The reference for overwriting: \<open>node_upd key value t\<close> is \<open>t\<close> with the value of
  \<open>key\<close>'s leaf replaced and nothing else changed.
\<close>

fun node_upd :: "'k \<Rightarrow> 'v \<Rightarrow> ('k, 'v) node \<Rightarrow> ('k, 'v) node" where
  "node_upd key value (Leaf k v) = Leaf k (if k = key then value else v)"
| "node_upd key value (Branch m cs) = Branch m (map (node_upd key value) cs)"

subsection \<open>The split loop\<close>

lemmas split_step_simps = hs_next_key hs_nth_key_eq_iff hs_nth_key_less_iff unat_hs_nth_key
  node_empty_def node_key_value_def

lemma split_loop_pair_step:
  assumes ok: "fl_ok fl" and d: "key_idx st key d \<noteq> key_idx st ko d"
  shows "\<exists>fl'. split_loop (hs_skip d (key_hash st key)) (hs_skip d (key_hash st ko)) key value ko vo
                 node_empty fl = Some (Inr (pair_node st key value ko vo d, fl')) \<and> fl_ok fl'"
proof (cases "key_idx st ko d < key_idx st key d")
  case True
  obtain fl' where pr: "pair fl (Leaf ko vo) (Leaf key value) = Inr ([Leaf ko vo, Leaf key value], fl')"
    and ok': "fl_ok fl'" using pair_result [OF ok] by blast
  with d True show ?thesis
    by (subst split_loop.simps) (simp add: split_step_simps pair_node_def)
next
  case False
  obtain fl' where pr: "pair fl (Leaf key value) (Leaf ko vo) = Inr ([Leaf key value, Leaf ko vo], fl')"
    and ok': "fl_ok fl'" using pair_result [OF ok] by blast
  with d False show ?thesis
    by (subst split_loop.simps) (simp add: split_step_simps pair_node_def)
qed

lemma split_loop_single_step:
  assumes same: "key_idx st key d = key_idx st ko d"
    and sing: "singleton fl node_empty = Inr ([node_empty], fl1)"
  shows "split_loop (hs_skip d (key_hash st key)) (hs_skip d (key_hash st ko)) key value ko vo node_empty fl =
           (case split_loop (hs_skip (Suc d) (key_hash st key)) (hs_skip (Suc d) (key_hash st ko))
                   key value ko vo node_empty fl1 of
              None \<Rightarrow> None
            | Some (Inl e) \<Rightarrow> Some (Inl e)
            | Some (Inr (c, fl2)) \<Rightarrow> Some (Inr (Branch (bm_set bm_empty (key_idx st key d)) [c], fl2)))"
  using same sing unfolding node_empty_def
  by (subst split_loop.simps)
    (simp add: hs_next_key hs_nth_key_eq_iff unat_hs_nth_key node_empty_def split: option.split sum.split)

lemma wf_pair_node:
  assumes d: "key_idx st key d \<noteq> key_idx st ko d" and p: "key_path st key d = key_path st ko d"
  shows "wf_node st (key_path st key d) (pair_node st key value ko vo d) \<and>
         map_of (leaves (pair_node st key value ko vo d)) = map_of [(key, value), (ko, vo)] \<and>
         compact (pair_node st key value ko vo d) \<and> length (leaves (pair_node st key value ko vo d)) = 2"
proof -
  let ?i = "key_idx st key d" and ?j = "key_idx st ko d"
  have lt: "?i < 64" "?j < 64" by (simp_all add: key_idx_lt)
  have ne: "key \<noteq> ko" using d by auto
  have pk: "key_path st key (Suc d) = key_path st key d @ [?i]"
    and po: "key_path st ko (Suc d) = key_path st key d @ [?j]" using p by (simp_all add: key_path_Suc)
  have ind: "set (bm_indices (bm_set (bm_set bm_empty ?i) ?j)) = {?i, ?j}" using pair_map [OF lt d] by auto
  show ?thesis
  proof (cases "?j < ?i")
    case True
    with pair_map [OF lt d] ind pk po ne show ?thesis by (simp add: pair_node_def fun_upd_twist)
  next
    case False
    with d have "?i < ?j" by simp
    with pair_map [OF lt d] ind pk po show ?thesis by (simp add: pair_node_def)
  qed
qed

lemma split_loop_differ:
  assumes ok: "fl_ok fl" and d: "key_idx st key d \<noteq> key_idx st ko d"
    and p: "key_path st key d = key_path st ko d"
  shows "\<exists>T fl'. split_loop (hs_skip d (key_hash st key)) (hs_skip d (key_hash st ko)) key value ko vo
                   node_empty fl = Some (Inr (T, fl')) \<and> fl_ok fl' \<and>
                 wf_node st (key_path st key d) T \<and> map_of (leaves T) = map_of [(key, value), (ko, vo)] \<and>
                 compact T \<and> length (leaves T) = 2"
  using split_loop_pair_step [OF ok d, of "value" vo] wf_pair_node [OF d p, of "value" vo] by blast

lemma wf_single_branch:
  assumes wf: "wf_node st (key_path st key (Suc d)) T"
  shows "wf_node st (key_path st key d) (Branch (bm_set bm_empty (key_idx st key d)) [T])"
proof -
  have lt: "key_idx st key d < 64" by (rule key_idx_lt)
  have "set (bm_indices (bm_set bm_empty (key_idx st key d))) = {key_idx st key d}"
    using single_map [OF lt] by auto
  then show ?thesis using single_map [OF lt] wf by (simp add: key_path_Suc)
qed

lemma split_loop_result:
  assumes "fl_ok fl" "key_path st key d = key_path st ko d" "key_idx st key (d + n) \<noteq> key_idx st ko (d + n)"
  shows "\<exists>T fl'. split_loop (hs_skip d (key_hash st key)) (hs_skip d (key_hash st ko)) key value ko vo
                   node_empty fl = Some (Inr (T, fl')) \<and> fl_ok fl' \<and>
                 wf_node st (key_path st key d) T \<and> map_of (leaves T) = map_of [(key, value), (ko, vo)] \<and>
                 compact T \<and> length (leaves T) = 2"
  using assms
proof (induction n arbitrary: d fl)
  case 0
  then show ?case by (intro split_loop_differ) simp_all
next
  case (Suc n)
  let ?i = "key_idx st key d"
  show ?case
  proof (cases "?i = key_idx st ko d")
    case False
    then show ?thesis using Suc.prems by (intro split_loop_differ) simp_all
  next
    case True
    obtain fl1 where sing: "singleton fl node_empty = Inr ([node_empty], fl1)" and ok1: "fl_ok fl1"
      using singleton_result [OF Suc.prems(1)] by blast
    have p1: "key_path st key (Suc d) = key_path st ko (Suc d)"
      using Suc.prems(2) True by (simp add: key_path_Suc)
    have "key_idx st key (Suc d + n) \<noteq> key_idx st ko (Suc d + n)" using Suc.prems(3) by simp
    then obtain T fl2 where
      rec: "split_loop (hs_skip (Suc d) (key_hash st key)) (hs_skip (Suc d) (key_hash st ko)) key value ko vo
              node_empty fl1 = Some (Inr (T, fl2))" and ok2: "fl_ok fl2"
      and wf: "wf_node st (key_path st key (Suc d)) T" and lv: "map_of (leaves T) = map_of [(key, value), (ko, vo)]"
      and cT: "compact T" and lT: "length (leaves T) = 2"
      using Suc.IH [OF ok1 p1] by blast
    have sl: "split_loop (hs_skip d (key_hash st key)) (hs_skip d (key_hash st ko)) key value ko vo
                node_empty fl = Some (Inr (Branch (bm_set bm_empty ?i) [T], fl2))"
      using split_loop_single_step [OF True sing] rec by simp
    have wfB: "wf_node st (key_path st key d) (Branch (bm_set bm_empty ?i) [T])"
      by (rule wf_single_branch [OF wf])
    have "map_of (leaves (Branch (bm_set bm_empty ?i) [T])) = map_of [(key, value), (ko, vo)]"
      using lv by simp
    moreover have "compact (Branch (bm_set bm_empty ?i) [T])" "length (leaves (Branch (bm_set bm_empty ?i) [T])) = 2"
      using cT lT by simp_all
    ultimately show ?thesis using sl ok2 wfB by blast
  qed
qed

lemma split_loop_same_streams:
  assumes same: "\<forall>n. key_idx st key n = key_idx st ko n"
    and ret: "split_loop s so k v k2 v2 cur fl = Some y"
  shows "\<forall>d. s = hs_skip d (key_hash st key) \<longrightarrow> so = hs_skip d (key_hash st ko) \<longrightarrow>
             cur = node_empty \<longrightarrow> \<not> fl_ok fl"
  apply (rule split_loop.raw_induct [where P = "\<lambda>s so k v k2 v2 cur fl y.
    \<forall>d. s = hs_skip d (key_hash st key) \<longrightarrow> so = hs_skip d (key_hash st ko) \<longrightarrow>
        cur = node_empty \<longrightarrow> \<not> fl_ok fl", OF _ ret])
  subgoal premises prems for f s so k v k2 v2 cur fl y
  proof (intro allI impI notI)
    fix d assume s: "s = hs_skip d (key_hash st key)" and so: "so = hs_skip d (key_hash st ko)"
      and cur: "cur = node_empty" and ok: "fl_ok fl"
    obtain fl1 where sing: "singleton fl node_empty = Inr ([node_empty], fl1)" and ok1: "fl_ok fl1"
      using singleton_result [OF ok] by blast
    from prems(2) s so cur sing same obtain r where
      r: "f (hs_skip (Suc d) (key_hash st key)) (hs_skip (Suc d) (key_hash st ko)) k v k2 v2 node_empty fl1 = Some r"
      unfolding node_empty_def by (auto simp: hs_next_key hs_nth_key_eq_iff bind_eq_Some_conv)
    from prems(1) [OF r] ok1 show False by blast
  qed
  done

subsection \<open>The free list along insert\<close>

lemma split_loop_count:
  assumes ret: "split_loop s so k v k2 v2 cur fl = Some y"
  shows "\<forall>c fl'. y = Inr (c, fl') \<longrightarrow> fl_count fl' \<le> fl_count fl"
  apply (rule split_loop.raw_induct [where P = "\<lambda>s so k v k2 v2 cur fl y.
    \<forall>c fl'. y = Inr (c, fl') \<longrightarrow> fl_count fl' \<le> fl_count fl", OF _ ret])
  subgoal premises prems for f s so k v k2 v2 cur fl y
    using prems(2)
    apply (auto simp: Let_def bind_eq_Some_conv dest!: singleton_count pair_count
             split: prod.splits node.splits if_splits sum.splits option.splits)
    subgoal premises p for x2 x1a x2a x21 x22 x1b x2c y c fl'
    proof -
      obtain a b where "y = Inr (a, b)" using p(5) by (cases y) auto
      with p(6) have r: "f x2 x2a k v k2 v2 (x1b ! 0) x2c = Some (Inr (a, b))" and b: "b = fl'" by auto
      from prems(1) [OF r] p(4) b show ?thesis by simp
    qed
    done
  done

lemma ins_walk_count:
  "ins_walk st key value s d t fl = Some (Inr (old, t', fl')) \<Longrightarrow>
   fl_count fl' \<le> fl_count fl + (if old = None then 1 else 0)"
proof (induction st key "value" s d t fl arbitrary: old t' fl' rule: ins_walk.induct)
  case (1 st key va s depth k v fl)
  then show ?case
    using split_loop_count [of "s" "hs_skip depth (key_hash st k)" key va k v node_empty fl]
    by (auto simp: Let_def split: if_splits option.splits sum.splits prod.splits)
next
  case (2 st key va s depth m cs fl)
  then show ?case
    by (auto simp: Let_def dest!: push_count_le split: if_splits option.splits sum.splits prod.splits)
qed

subsection \<open>Updating and growing a branch\<close>

lemma wf_branch_update:
  assumes wf: "wf_node st p (Branch m cs)" and set: "is_set m i" and wfc: "wf_node st (p @ [i]) c'"
  shows "wf_node st p (Branch m (cs[set_bits_under m i := c']))"
proof -
  have len: "length cs = set_bits m" by (rule wf_branch_len [OF wf])
  have n: "set_bits_under m i < length cs" using wf_child [OF wf set] by simp
  have "wf_node st (p @ [j]) (cs[set_bits_under m i := c'] ! set_bits_under m j)"
    if j: "j \<in> set (bm_indices m)" for j
  proof (cases "j = i")
    case True
    with n wfc show ?thesis by simp
  next
    case False
    with j set have "set_bits_under m j \<noteq> set_bits_under m i"
      using set_bits_under_inj [of m j i] by auto
    with j wf_child [OF wf, of j] show ?thesis by simp
  qed
  with len show ?thesis by simp
qed

lemma lookup_branch_update:
  assumes wf: "wf_node st p (Branch m cs)" and set: "is_set m (key_idx st key (length p))"
    and wf': "wf_node st p (Branch m (cs[set_bits_under m (key_idx st key (length p)) := c']))"
    and c': "map_of (leaves c') = (map_of (leaves (cs ! set_bits_under m (key_idx st key (length p)))))(key \<mapsto> value)"
  shows "map_of (leaves (Branch m (cs[set_bits_under m (key_idx st key (length p)) := c']))) =
           (map_of (leaves (Branch m cs)))(key \<mapsto> value)"
proof
  fix q
  let ?i = "key_idx st key (length p)" and ?j = "key_idx st q (length p)"
  let ?n = "set_bits_under m ?i"
  have n: "?n < length cs" using wf_child [OF wf set] by simp
  note L = wf_branch_lookup [OF wf', of q] and R = wf_branch_lookup [OF wf, of q]
  show "map_of (leaves (Branch m (cs[?n := c']))) q = ((map_of (leaves (Branch m cs)))(key \<mapsto> value)) q"
  proof (cases "is_set m ?j")
    case True
    show ?thesis
    proof (cases "?j = ?i")
      case True
      then have "cs[?n := c'] ! set_bits_under m ?j = c'" using n by simp
      then show ?thesis unfolding L R fun_upd_apply using True set c' by simp
    next
      case False
      then have "set_bits_under m ?j \<noteq> ?n" "q \<noteq> key"
        using set_bits_under_inj [OF \<open>is_set m ?j\<close> set] by auto
      then have "cs[?n := c'] ! set_bits_under m ?j = cs ! set_bits_under m ?j" "q \<noteq> key"
        by simp_all
      then show ?thesis unfolding L R fun_upd_apply by simp
    qed
  next
    case False
    then have "q \<noteq> key" using set by auto
    with False show ?thesis unfolding L R fun_upd_apply by simp
  qed
qed

lemma wf_branch_grow:
  assumes wf: "wf_node st p (Branch m cs)" and i: "i < 64" "\<not> is_set m i"
    and kp: "key_path st key (Suc (length p)) = p @ [i]"
  shows "wf_node st p (Branch (bm_set m i) (insert_at (set_bits_under m i) (Leaf key value) cs))"
proof -
  have len: "length cs = set_bits m" by (rule wf_branch_len [OF wf])
  have pos: "set_bits_under m i \<le> length cs" using len set_bits_under_le_set_bits by simp
  have "wf_node st (p @ [j]) (insert_at (set_bits_under m i) (Leaf key value) cs ! set_bits_under (bm_set m i) j)"
    if j: "j \<in> set (bm_indices (bm_set m i))" for j
  proof (cases "j = i")
    case True
    with pos kp show ?thesis by (simp add: grow_rank [OF i] nth_insert_at)
  next
    case False
    with j i have js: "is_set m j" by (simp add: is_set_bm_set)
    with wf_child [OF wf js] show ?thesis by (simp add: grow_nth [OF i len js])
  qed
  moreover have "length (insert_at (set_bits_under m i) (Leaf key value) cs) = set_bits (bm_set m i)"
    using pos len by (simp add: set_bits_bm_set [OF i])
  ultimately show ?thesis by simp
qed

lemma lookup_branch_grow:
  assumes wf: "wf_node st p (Branch m cs)" and i: "key_idx st key (length p) < 64"
    "\<not> is_set m (key_idx st key (length p))"
    and wf': "wf_node st p (Branch (bm_set m (key_idx st key (length p)))
                 (insert_at (set_bits_under m (key_idx st key (length p))) (Leaf key value) cs))"
  shows "map_of (leaves (Branch (bm_set m (key_idx st key (length p)))
            (insert_at (set_bits_under m (key_idx st key (length p))) (Leaf key value) cs))) =
           (map_of (leaves (Branch m cs)))(key \<mapsto> value)"
proof
  fix q
  let ?i = "key_idx st key (length p)" and ?j = "key_idx st q (length p)"
  have len: "length cs = set_bits m" by (rule wf_branch_len [OF wf])
  have pos: "set_bits_under m ?i \<le> length cs" using len set_bits_under_le_set_bits by simp
  note L = wf_branch_lookup [OF wf', of q] and R = wf_branch_lookup [OF wf, of q]
  show "map_of (leaves (Branch (bm_set m ?i) (insert_at (set_bits_under m ?i) (Leaf key value) cs))) q =
        ((map_of (leaves (Branch m cs)))(key \<mapsto> value)) q"
  proof (cases "?j = ?i")
    case True
    then have "insert_at (set_bits_under m ?i) (Leaf key value) cs ! set_bits_under (bm_set m ?i) ?j = Leaf key value"
      using pos by (simp add: grow_rank [OF i] nth_insert_at)
    then show ?thesis unfolding L R fun_upd_apply using True i by (simp add: is_set_bm_set)
  next
    case False
    then have qk: "q \<noteq> key" by auto
    show ?thesis
    proof (cases "is_set m ?j")
      case True
      then show ?thesis unfolding L R fun_upd_apply using qk i by (simp add: is_set_bm_set grow_nth [OF i len])
    next
      case False
      then show ?thesis unfolding L R fun_upd_apply using qk i \<open>?j \<noteq> ?i\<close> by (simp add: is_set_bm_set)
    qed
  qed
qed

subsection \<open>The insertion walk\<close>

lemma ins_leaf_split:
  assumes kp: "key_path st key (length p) = p" and wf: "key_path st k (length p) = p"
    and ne: "k \<noteq> key" and sep: "separable st key (Leaf k v)" and ok: "fl_ok fl"
  shows "\<exists>t' fl'. ins_walk st key value (hs_skip (length p) (key_hash st key)) (length p) (Leaf k v) fl =
            Some (Inr (map_of (leaves (Leaf k v)) key, t', fl')) \<and> wf_node st p t' \<and> fl_ok fl' \<and>
            map_of (leaves t') = (map_of (leaves (Leaf k v)))(key \<mapsto> value) \<and> compact t'"
proof -
  from sep ne obtain n where n: "key_idx st key n \<noteq> key_idx st k n" by (auto simp: separable_def)
  have "\<not> n < length p" using key_path_agree [of st key "length p" k n] kp wf n by auto
  then have n2: "key_idx st key (length p + (n - length p)) \<noteq> key_idx st k (length p + (n - length p))"
    using n by simp
  obtain T fl' where sl: "split_loop (hs_skip (length p) (key_hash st key)) (hs_skip (length p) (key_hash st k))
        key value k v node_empty fl = Some (Inr (T, fl'))" and ok': "fl_ok fl'"
    and wfT: "wf_node st (key_path st key (length p)) T" and mT: "map_of (leaves T) = map_of [(key, value), (k, v)]"
    and cT: "compact T"
    using split_loop_result [OF ok _ n2, of "value" v] kp wf by auto
  have "ins_walk st key value (hs_skip (length p) (key_hash st key)) (length p) (Leaf k v) fl =
          Some (Inr (None, T, fl'))" using sl ne by (simp add: Let_def)
  with ok' wfT mT kp ne cT show ?thesis by auto
qed

lemma length_leaves_update:
  assumes "wf_node st p t" "map_of (leaves t') = (map_of (leaves t))(k \<mapsto> v)"
  shows "length (leaves t) \<le> length (leaves t')"
proof -
  have "length (leaves t) = card (dom (map_of (leaves t)))" by (rule wf_card_dom [OF assms(1), symmetric])
  also have "\<dots> \<le> card (dom (map_of (leaves t')))"
    using assms(2) by (intro card_mono) (auto simp: dom_map_of_conv_image_fst)
  also have "\<dots> \<le> length (leaves t')"
    by (simp add: dom_map_of_conv_image_fst order_trans [OF card_image_le card_length])
  finally show ?thesis .
qed

lemma length_leaves_insert_at:
  "length (concat (map leaves (insert_at p x cs))) = length (concat (map leaves cs)) + length (leaves x)"
proof -
  have "length (concat (map leaves (take p cs))) + length (concat (map leaves (drop p cs))) =
        length (concat (map leaves cs))"
    by (metis append_take_drop_id concat_append length_append map_append)
  then show ?thesis by (simp add: insert_at_def)
qed

lemma ins_descend:
  assumes wf: "wf_node st p (Branch m cs)" and nonempty: "\<not> bm_is_empty m"
    and set: "is_set m (key_idx st key (length p))"
    and rec: "ins_walk st key value (hs_skip (Suc (length p)) (key_hash st key)) (Suc (length p))
                (cs ! set_bits_under m (key_idx st key (length p))) fl =
              Some (Inr (map_of (leaves (cs ! set_bits_under m (key_idx st key (length p)))) key, c', fl'))"
    and wfc': "wf_node st (p @ [key_idx st key (length p)]) c'" and ok': "fl_ok fl'"
    and mc: "map_of (leaves c') =
               (map_of (leaves (cs ! set_bits_under m (key_idx st key (length p)))))(key \<mapsto> value)"
    and cc: "compact (cs ! set_bits_under m (key_idx st key (length p))) \<longrightarrow> compact c'"
  shows "\<exists>t' fl'. ins_walk st key value (hs_skip (length p) (key_hash st key)) (length p) (Branch m cs) fl =
            Some (Inr (map_of (leaves (Branch m cs)) key, t', fl')) \<and> wf_node st p t' \<and> fl_ok fl' \<and>
            map_of (leaves t') = (map_of (leaves (Branch m cs)))(key \<mapsto> value) \<and>
            (compact (Branch m cs) \<longrightarrow> compact t')"
proof -
  let ?i = "key_idx st key (length p)"
  let ?n = "set_bits_under m ?i"
  let ?t' = "Branch m (cs[?n := c'])"
  have n: "?n < length cs" using wf_child [OF wf set] by simp
  have wf': "wf_node st p ?t'" by (rule wf_branch_update [OF wf set wfc'])
  have m': "map_of (leaves ?t') = (map_of (leaves (Branch m cs)))(key \<mapsto> value)"
    by (rule lookup_branch_update [OF wf set wf' mc])
  have old: "map_of (leaves (cs ! ?n)) key = map_of (leaves (Branch m cs)) key"
    using wf_branch_lookup [OF wf, of key] set by simp
  have ins: "ins_walk st key value (hs_skip (length p) (key_hash st key)) (length p) (Branch m cs) fl =
              Some (Inr (map_of (leaves (Branch m cs)) key, ?t', fl'))"
    using nonempty set n rec old by (simp add: hs_next_key unat_hs_nth_key)
  have "compact ?t'" if c: "compact (Branch m cs)"
  proof -
    have "compact c'" using c cc n by simp
    then have "\<forall>c \<in> set (cs[?n := c']). compact c" using c set_update_subset_insert by fastforce
    moreover have "2 \<le> length (leaves ?t')"
      using c length_leaves_update [OF wf m'] by (simp del: leaves.simps)
    ultimately show ?thesis by (simp del: leaves.simps)
  qed
  with ins wf' ok' m' show ?thesis by blast
qed

lemma ins_grow:
  assumes wf: "wf_node st p (Branch m cs)" and kp: "key_path st key (length p) = p" and ok: "fl_ok fl"
    and nonempty: "\<not> bm_is_empty m" and ns: "\<not> is_set m (key_idx st key (length p))"
  shows "\<exists>t' fl'. ins_walk st key value (hs_skip (length p) (key_hash st key)) (length p) (Branch m cs) fl =
            Some (Inr (map_of (leaves (Branch m cs)) key, t', fl')) \<and> wf_node st p t' \<and> fl_ok fl' \<and>
            map_of (leaves t') = (map_of (leaves (Branch m cs)))(key \<mapsto> value) \<and>
            (compact (Branch m cs) \<longrightarrow> compact t')"
proof -
  let ?i = "key_idx st key (length p)"
  let ?pos = "set_bits_under m ?i"
  let ?t' = "Branch (bm_set m ?i) (insert_at ?pos (Leaf key value) cs)"
  have len: "length cs = set_bits m" by (rule wf_branch_len [OF wf])
  have i64: "?i < 64" by (rule key_idx_lt)
  have lt: "0 < length cs" "length cs < 64"
    using len set_bits_pos [OF nonempty] set_bits_lt_64 [OF ns i64] by simp_all
  obtain fl' where pu: "push fl cs (Leaf key value) = Inr (cs @ [Leaf key value], fl')" and ok': "fl_ok fl'"
    using push_result [OF ok lt, of "Leaf key value"] by blast
  have pos: "?pos \<le> length cs" using len set_bits_under_le_set_bits by simp
  have kp': "key_path st key (Suc (length p)) = p @ [?i]" using kp by (simp add: key_path_Suc)
  have wf': "wf_node st p ?t'" by (rule wf_branch_grow [OF wf i64 ns kp'])
  have old: "map_of (leaves (Branch m cs)) key = None"
    using wf_branch_lookup [OF wf, of key] ns by simp
  have ins: "ins_walk st key value (hs_skip (length p) (key_hash st key)) (length p) (Branch m cs) fl =
              Some (Inr (None, ?t', fl'))"
    using nonempty ns pu pos len
    by (simp add: hs_next_key unat_hs_nth_key Let_def slice_from_raw_def node_key_value_def shift_down_append)
  have "compact ?t'" if c: "compact (Branch m cs)"
  proof -
    have "\<forall>c \<in> set (insert_at ?pos (Leaf key value) cs). compact c" using c by auto
    moreover have "2 \<le> length (leaves ?t')"
      using c length_leaves_insert_at [of ?pos "Leaf key value" cs] by simp
    ultimately show ?thesis by (simp del: leaves.simps)
  qed
  then show ?thesis unfolding old using ins wf' ok' lookup_branch_grow [OF wf i64 ns wf'] by blast
qed

lemma ins_empty_branch:
  assumes wf: "wf_node st p (Branch m cs)" and e: "bm_is_empty m"
    and kp: "key_path st key (length p) = p" and ok: "fl_ok fl"
  shows "ins_walk st key value (hs_skip (length p) (key_hash st key)) (length p) (Branch m cs) fl =
           Some (Inr (map_of (leaves (Branch m cs)) key, Leaf key value, fl)) \<and>
         wf_node st p (Leaf key value) \<and> fl_ok fl \<and>
         map_of (leaves (Leaf key value)) = (map_of (leaves (Branch m cs)))(key \<mapsto> value) \<and>
         compact (Leaf key value)"
proof -
  have "cs = []" using wf_branch_len [OF wf] e by (simp add: bm_is_empty_iff set_bits_card)
  with e kp ok show ?thesis by (simp add: hs_next_key node_key_value_def fun_eq_iff)
qed

lemma ins_walk_correct:
  assumes "wf_node st p t" "key_path st key (length p) = p" "fl_ok fl" "separable st key t"
  shows "\<exists>t' fl'. ins_walk st key value (hs_skip (length p) (key_hash st key)) (length p) t fl =
            Some (Inr (map_of (leaves t) key, t', fl')) \<and> wf_node st p t' \<and> fl_ok fl' \<and>
            map_of (leaves t') = (map_of (leaves t))(key \<mapsto> value) \<and>
            ((t = node_empty \<or> compact t) \<longrightarrow> compact t')"
  using assms
proof (induction st p t arbitrary: fl rule: wf_node.induct)
  case (1 st p k v)
  show ?case
  proof (cases "k = key")
    case True
    with "1.prems" show ?thesis by auto
  next
    case False
    have "key_path st k (length p) = p" using "1.prems"(1) by simp
    with ins_leaf_split [of st key p k v fl "value"] "1.prems"(2-4) False show ?thesis by blast
  qed
next
  case (2 st p m cs)
  note wf = "2.prems"(1) and kp = "2.prems"(2) and ok = "2.prems"(3) and sep = "2.prems"(4)
  let ?i = "key_idx st key (length p)"
  show ?case
  proof (cases "bm_is_empty m")
    case True
    from ins_empty_branch [OF wf True kp ok, of "value"] show ?thesis by blast
  next
    case nonempty: False
    then have ne: "Branch m cs \<noteq> node_empty" by (auto simp: node_empty_def)
    show ?thesis
    proof (cases "is_set m ?i")
      case True
      let ?n = "set_bits_under m ?i"
      from wf_child [OF wf True] have n: "?n < length cs" and wfc: "wf_node st (p @ [?i]) (cs ! ?n)"
        by simp_all
      have kp2: "key_path st key (length (p @ [?i])) = p @ [?i]" using kp by (simp add: key_path_Suc)
      have jin: "?i \<in> set (bm_indices m)" using True by simp
      obtain c' fl' where
        rec: "ins_walk st key value (hs_skip (Suc (length p)) (key_hash st key)) (Suc (length p)) (cs ! ?n) fl =
                Some (Inr (map_of (leaves (cs ! ?n)) key, c', fl'))"
        and wfc': "wf_node st (p @ [?i]) c'" and ok': "fl_ok fl'"
        and mc: "map_of (leaves c') = (map_of (leaves (cs ! ?n)))(key \<mapsto> value)"
        and cc: "(cs ! ?n = node_empty \<or> compact (cs ! ?n)) \<longrightarrow> compact c'"
        using "2.IH" [OF wf_branch_len [OF wf] jin wfc kp2 ok separable_child [OF sep n],
                      unfolded length_append_singleton] by blast
      from ins_descend [OF wf nonempty True rec wfc' ok' mc] cc ne show ?thesis by blast
    next
      case False
      from ins_grow [OF wf kp ok nonempty False, of "value"] ne show ?thesis by blast
    qed
  qed
qed

lemma node_upd_absent: "key \<notin> fst ` set (leaves t) \<Longrightarrow> node_upd key value t = t"
proof (induction t)
  case (Leaf k v)
  then show ?case by simp
next
  case (Branch m cs)
  then have "\<forall>c \<in> set cs. node_upd key value c = c" by auto
  then show ?case by (simp add: map_idI)
qed

lemma ins_walk_overwrite:
  "wf_node st p t \<Longrightarrow> key_path st key (length p) = p \<Longrightarrow> map_of (leaves t) key = Some v \<Longrightarrow>
   ins_walk st key value (hs_skip (length p) (key_hash st key)) (length p) t fl =
     Some (Inr (Some v, node_upd key value t, fl))"
proof (induction st p t rule: wf_node.induct)
  case (1 st p k w)
  then show ?case by (auto split: if_splits)
next
  case (2 st p m cs)
  note wf = "2.prems"(1) and kp = "2.prems"(2) and kv = "2.prems"(3)
  let ?i = "key_idx st key (length p)"
  let ?n = "set_bits_under m ?i"
  have set: "is_set m ?i" using wf_branch_lookup [OF wf, of key] kv by (auto split: if_splits)
  then have nonempty: "\<not> bm_is_empty m" by (auto simp: bm_is_empty_iff)
  from wf_child [OF wf set] have n: "?n < length cs" and wfc: "wf_node st (p @ [?i]) (cs ! ?n)" by simp_all
  have kvc: "map_of (leaves (cs ! ?n)) key = Some v" using wf_branch_lookup [OF wf, of key] kv set by simp
  have kp2: "key_path st key (length (p @ [?i])) = p @ [?i]" using kp by (simp add: key_path_Suc)
  have jin: "?i \<in> set (bm_indices m)" using set by simp
  have rec: "ins_walk st key value (hs_skip (Suc (length p)) (key_hash st key)) (Suc (length p)) (cs ! ?n) fl =
      Some (Inr (Some v, node_upd key value (cs ! ?n), fl))"
    using "2.IH" [OF wf_branch_len [OF wf] jin wfc kp2 kvc] by simp
  have "cs[?n := node_upd key value (cs ! ?n)] = map (node_upd key value) cs"
  proof (rule nth_equalityI)
    fix j assume j: "j < length (cs[?n := node_upd key value (cs ! ?n)])"
    show "cs[?n := node_upd key value (cs ! ?n)] ! j = map (node_upd key value) cs ! j"
    proof (cases "j = ?n")
      case False
      have "key \<notin> fst ` set (leaves (cs ! j))"
        by (rule wf_other_children [OF wf]) (use j False in auto)
      with j False show ?thesis by (simp add: node_upd_absent)
    qed (use j in simp)
  qed simp
  with nonempty set n rec show ?case by (simp add: hs_next_key unat_hs_nth_key)
qed

lemma hamt_insert_result:
  assumes inv: "hamt_inv h" and sep: "separable (state h) key (root h)"
  shows "\<exists>h'. hamt_insert h key value = Some (Inr (hamt_lookup h key, h')) \<and> hamt_inv h' \<and>
              state h' = state h \<and> hamt_lookup h' = (hamt_lookup h)(key \<mapsto> value)"
proof -
  from inv have wf: "wf_node (state h) [] (root h)" and ok: "fl_ok (free_list h)"
    and c: "root h = node_empty \<or> compact (root h)"
    by (simp_all add: hamt_inv_def)
  obtain t' fl' where w: "ins_walk (state h) key value (hs_skip 0 (key_hash (state h) key)) 0 (root h) (free_list h) =
        Some (Inr (map_of (leaves (root h)) key, t', fl'))" and wf': "wf_node (state h) [] t'" and ok': "fl_ok fl'"
    and m: "map_of (leaves t') = (map_of (leaves (root h)))(key \<mapsto> value)" and c': "compact t'"
    using ins_walk_correct [OF wf _ ok sep, of "value"] c by (auto simp: key_path_def)
  let ?h' = "h\<lparr>root := t', free_list := fl'\<rparr>"
  have inv': "hamt_inv ?h'" using wf' ok' c' by (simp add: hamt_inv_def)
  have "hamt_insert h key value = Some (Inr (hamt_lookup h key, ?h'))"
    using w by (simp add: hamt_insert_def hs_skip_def hamt_lookup_def)
  moreover have "hamt_lookup ?h' = (hamt_lookup h)(key \<mapsto> value)"
    using m by (simp add: hamt_lookup_def)
  ultimately show ?thesis using inv' by auto
qed

lemma ins_walk_collide:
  "wf_node st p t \<Longrightarrow> key_path st key (length p) = p \<Longrightarrow> fl_ok fl \<Longrightarrow>
   map_of (leaves t) k = Some w \<Longrightarrow> k \<noteq> key \<Longrightarrow> \<forall>n. key_idx st key n = key_idx st k n \<Longrightarrow>
   ins_walk st key value (hs_skip (length p) (key_hash st key)) (length p) t fl = None"
proof (induction st p t rule: wf_node.induct)
  case (1 st p k' w')
  then have "k' = k" "w' = w" by (auto split: if_splits)
  let ?r = "split_loop (hs_skip (length p) (key_hash st key)) (hs_skip (length p) (key_hash st k))
              key value k w node_empty fl"
  have "?r = None"
  proof (rule ccontr)
    assume "?r \<noteq> None"
    then obtain y where "?r = Some y" by blast
    from split_loop_same_streams [OF "1.prems"(6) this] "1.prems"(3) show False by blast
  qed
  with "1.prems"(5) \<open>k' = k\<close> \<open>w' = w\<close> show ?case by (simp add: Let_def)
next
  case (2 st p m cs)
  note wf = "2.prems"(1) and kp = "2.prems"(2) and ok = "2.prems"(3) and kw = "2.prems"(4)
  let ?i = "key_idx st key (length p)"
  let ?n = "set_bits_under m ?i"
  have same: "key_idx st k (length p) = ?i" using "2.prems"(6) by simp
  have set: "is_set m ?i" using wf_branch_lookup [OF wf, of k] kw same by (auto split: if_splits)
  then have nonempty: "\<not> bm_is_empty m" by (auto simp: bm_is_empty_iff)
  from wf_child [OF wf set] have n: "?n < length cs" and wfc: "wf_node st (p @ [?i]) (cs ! ?n)" by simp_all
  have kwc: "map_of (leaves (cs ! ?n)) k = Some w" using wf_branch_lookup [OF wf, of k] kw set same by simp
  have kp2: "key_path st key (length (p @ [?i])) = p @ [?i]" using kp by (simp add: key_path_Suc)
  have jin: "?i \<in> set (bm_indices m)" using set by simp
  have rec: "ins_walk st key value (hs_skip (Suc (length p)) (key_hash st key)) (Suc (length p)) (cs ! ?n) fl = None"
    using "2.IH" [OF wf_branch_len [OF wf] jin wfc kp2 ok kwc "2.prems"(5,6)] by simp
  with nonempty set n show ?case by (simp add: hs_next_key unat_hs_nth_key)
qed

lemma hamt_insert_diverges:
  assumes inv: "hamt_inv h" and nsep: "\<not> separable (state h) key (root h)"
  shows "hamt_insert h key value = None"
proof -
  from nsep obtain k w where kw: "(k, w) \<in> set (leaves (root h))" and ne: "k \<noteq> key"
    and same: "\<forall>n. key_idx (state h) key n = key_idx (state h) k n"
    by (auto simp: separable_def)
  from inv have wf: "wf_node (state h) [] (root h)" and ok: "fl_ok (free_list h)" by (simp_all add: hamt_inv_def)
  from wf_distinct [OF wf] kw have "map_of (leaves (root h)) k = Some w" by simp
  from ins_walk_collide [OF wf _ ok this ne same, of "value"]
  show ?thesis by (simp add: hamt_insert_def key_path_def hs_skip_def)
qed

subsection \<open>Termination of the split loop\<close>

text \<open>
  C19: the collision loop of \<open>insert\<close> returns whenever the new key's and the displaced
  key's streams, equal on the first \<open>d\<close> indices, differ at some later index: it
  yields a well-formed subtrie holding exactly the two entries and a valid free list.
\<close>

theorem split_loop_terminates:
  assumes "fl_ok fl" "key_path st key d = key_path st ko d" "d \<le> n" "key_idx st key n \<noteq> key_idx st ko n"
  shows "\<exists>T fl'. split_loop (hs_skip d (key_hash st key)) (hs_skip d (key_hash st ko)) key value ko vo
                   node_empty fl = Some (Inr (T, fl')) \<and> fl_ok fl' \<and>
                 wf_node st (key_path st key d) T \<and> map_of (leaves T) = [ko \<mapsto> vo, key \<mapsto> value]"
proof -
  have "key_idx st key (d + (n - d)) \<noteq> key_idx st ko (d + (n - d))" using assms(3,4) by simp
  from split_loop_result [OF assms(1,2) this, of "value" vo] show ?thesis by simp blast
qed

text \<open>
  C18: the shape of the split (the spec's collision-handling property): when the two
  streams agree on \<open>k\<close> indices from depth \<open>d\<close> and then differ, the loop builds
  exactly \<open>k\<close> single-child branches along the shared indices, ending in the two-leaf
  branch with the leaf of the smaller index first.
\<close>

theorem split_loop_chain:
  assumes "fl_ok fl" "\<forall>n < k. key_idx st key (d + n) = key_idx st ko (d + n)"
    "key_idx st key (d + k) \<noteq> key_idx st ko (d + k)"
  shows "\<exists>fl'. split_loop (hs_skip d (key_hash st key)) (hs_skip d (key_hash st ko)) key value ko vo
                 node_empty fl =
               Some (Inr (chain (map (key_idx st key) [d..<d + k]) (pair_node st key value ko vo (d + k)), fl')) \<and>
               fl_ok fl'"
  using assms
proof (induction k arbitrary: d fl)
  case 0
  then show ?case using split_loop_pair_step [of fl st key d ko "value" vo] by simp
next
  case (Suc k)
  have same: "key_idx st key d = key_idx st ko d" using Suc.prems(2) [rule_format, of 0] by simp
  obtain fl1 where sing: "singleton fl node_empty = Inr ([node_empty], fl1)" and ok1: "fl_ok fl1"
    using singleton_result [OF Suc.prems(1)] by blast
  have agree: "\<forall>n < k. key_idx st key (Suc d + n) = key_idx st ko (Suc d + n)"
    using Suc.prems(2) by auto
  have differ: "key_idx st key (Suc d + k) \<noteq> key_idx st ko (Suc d + k)" using Suc.prems(3) by simp
  obtain fl2 where rec: "split_loop (hs_skip (Suc d) (key_hash st key)) (hs_skip (Suc d) (key_hash st ko))
        key value ko vo node_empty fl1 =
      Some (Inr (chain (map (key_idx st key) [Suc d..<Suc d + k]) (pair_node st key value ko vo (Suc d + k)), fl2))"
    and ok2: "fl_ok fl2" using Suc.IH [OF ok1 agree differ] by blast
  have "[d..<d + Suc k] = d # [Suc d..<Suc d + k]" by (simp add: upt_rec)
  then show ?case using split_loop_single_step [OF same sing] rec ok2 by simp
qed

theorem split_loop_chain_witness:
  "\<exists>fl'. split_loop (hs_skip 0 (key_hash demo_state 1)) (hs_skip 0 (key_hash demo_state 65))
      (1 :: nat) ''a'' 65 ''b'' node_empty (fl_new ()) =
    Some (Inr (chain [1] (Branch (bm_set (bm_set bm_empty 0) 1) [Leaf 1 ''a'', Leaf 65 ''b'']), fl')) \<and> fl_ok fl'"
proof -
  have ok: "fl_ok (fl_new () :: (nat, char list) node free_list)" by (rule fl_ok_new)
  have i0: "key_idx demo_state (1 :: nat) 0 = 1" "key_idx demo_state (65 :: nat) 0 = 1" by code_simp+
  have i1: "key_idx demo_state (1 :: nat) 1 = 0" "key_idx demo_state (65 :: nat) 1 = 1" by code_simp+
  have agree: "\<forall>n < 1. key_idx demo_state (1 :: nat) (0 + n) = key_idx demo_state 65 (0 + n)" using i0 by simp
  have differ: "key_idx demo_state (1 :: nat) (0 + 1) \<noteq> key_idx demo_state 65 (0 + 1)" using i1 by simp
  show ?thesis using split_loop_chain [OF ok agree differ, of "''a''" "''b''"] i0 i1
    by (simp add: pair_node_def)
qed

text \<open>
  C20: when two keys' streams agree forever (for instance, two unequal keys whose
  \<open>Hash\<close> writes the same bytes), the collision loop never returns: there is no
  collision bucket, so inserting the second key does not terminate.
\<close>

theorem split_loop_diverges:
  assumes same: "\<forall>n. key_idx st key n = key_idx st ko n" and ok: "fl_ok fl"
  shows "split_loop (hs_skip d (key_hash st key)) (hs_skip d (key_hash st ko)) key value ko vo node_empty fl = None"
proof (rule ccontr)
  assume "split_loop (hs_skip d (key_hash st key)) (hs_skip d (key_hash st ko)) key value ko vo node_empty fl \<noteq> None"
  then obtain y where "split_loop (hs_skip d (key_hash st key)) (hs_skip d (key_hash st ko)) key value ko vo node_empty fl = Some y"
    by blast
  from split_loop_same_streams [OF same this] ok show False by blast
qed

theorem split_loop_terminates_witness:
  "\<exists>T fl'. split_loop (hs_skip 0 (key_hash demo_state 1)) (hs_skip 0 (key_hash demo_state 65))
      (1 :: nat) ''a'' 65 ''b'' node_empty (fl_new ()) = Some (Inr (T, fl')) \<and> fl_ok fl' \<and>
      wf_node demo_state (key_path demo_state 1 0) T \<and> map_of (leaves T) = [65 \<mapsto> ''b'', 1 \<mapsto> ''a'']"
proof -
  have ok: "fl_ok (fl_new () :: (nat, char list) node free_list)" by (rule fl_ok_new)
  have p: "key_path demo_state (1 :: nat) 0 = key_path demo_state 65 0" by (simp add: key_path_def)
  have d: "key_idx demo_state (1 :: nat) 1 \<noteq> key_idx demo_state 65 1" by code_simp
  show ?thesis using split_loop_terminates [OF ok p _ d, of "''a''" "''b''"] by simp
qed

theorem split_loop_diverges_witness:
  "split_loop (hs_skip 0 (key_hash collide_state 1)) (hs_skip 0 (key_hash collide_state 2))
      (1 :: nat) ''a'' 2 ''b'' node_empty (fl_new ()) = None"
proof -
  have same: "\<forall>n. key_idx collide_state (1 :: nat) n = key_idx collide_state 2 n"
    by (simp add: key_idx_def key_hash_def collide_state_def)
  have ok: "fl_ok (fl_new () :: (nat, char list) node free_list)" by (rule fl_ok_new)
  show ?thesis by (rule split_loop_diverges [OF same ok])
qed

end
