(* ===== verification/Hamt_Client.thy ===== *)
theory Hamt_Client
  imports Hamt_Insert
begin

text \<open>
  The map as its clients see it: the public operations \<open>Hamt::insert\<close> and \<open>Hamt::get\<close>
  as one step function on an operation datatype, the abstract machine on finite maps
  that the step function refines, sequences of operations, and the maps reachable
  from \<open>Hamt::new\<close> as an inductive relation.
\<close>

datatype ('k, 'v) hamt_op = Op_insert 'k 'v | Op_get 'k

datatype 'v hamt_reply = Inserted "'v option" | Got "'v option"

text \<open>One call of the public interface; \<open>None\<close> when the call does not return.\<close>

fun hamt_step :: "('k, 'v) hamt \<Rightarrow> ('k, 'v) hamt_op \<Rightarrow> (error + 'v hamt_reply \<times> ('k, 'v) hamt) option" where
  "hamt_step h (Op_insert k v) =
     (case hamt_insert h k v of
        None \<Rightarrow> None
      | Some (Inl e) \<Rightarrow> Some (Inl e)
      | Some (Inr (old, h')) \<Rightarrow> Some (Inr (Inserted old, h')))"
| "hamt_step h (Op_get k) =
     (case hamt_get h k of
        Inl e \<Rightarrow> Some (Inl e)
      | Inr r \<Rightarrow> Some (Inr (Got r, h)))"

text \<open>The abstract machine: a finite map, \<open>insert\<close> returning the previous value.\<close>

fun map_step :: "('k \<rightharpoonup> 'v) \<Rightarrow> ('k, 'v) hamt_op \<Rightarrow> 'v hamt_reply \<times> ('k \<rightharpoonup> 'v)" where
  "map_step m (Op_insert k v) = (Inserted (m k), m(k \<mapsto> v))"
| "map_step m (Op_get k) = (Got (m k), m)"

text \<open>A sequence of calls, stopping at the first fault.\<close>

fun hamt_exec :: "('k, 'v) hamt \<Rightarrow> ('k, 'v) hamt_op list \<Rightarrow> (error + 'v hamt_reply list \<times> ('k, 'v) hamt) option" where
  "hamt_exec h [] = Some (Inr ([], h))"
| "hamt_exec h (op # ops) =
     (case hamt_step h op of
        None \<Rightarrow> None
      | Some (Inl e) \<Rightarrow> Some (Inl e)
      | Some (Inr (r, h')) \<Rightarrow>
          (case hamt_exec h' ops of
             None \<Rightarrow> None
           | Some (Inl e) \<Rightarrow> Some (Inl e)
           | Some (Inr (rs, h'')) \<Rightarrow> Some (Inr (r # rs, h''))))"

fun map_exec :: "('k \<rightharpoonup> 'v) \<Rightarrow> ('k, 'v) hamt_op list \<Rightarrow> 'v hamt_reply list \<times> ('k \<rightharpoonup> 'v)" where
  "map_exec m [] = ([], m)"
| "map_exec m (op # ops) =
     (case map_step m op of (r, m') \<Rightarrow> case map_exec m' ops of (rs, m'') \<Rightarrow> (r # rs, m''))"

text \<open>The keys a sequence of calls inserts.\<close>

fun inserted_keys :: "('k, 'v) hamt_op list \<Rightarrow> 'k list" where
  "inserted_keys [] = []"
| "inserted_keys (Op_insert k v # ops) = k # inserted_keys ops"
| "inserted_keys (Op_get k # ops) = inserted_keys ops"

text \<open>The maps a program can hold: built by \<open>Hamt::new\<close>, then changed by calls that returned.\<close>

inductive reach :: "('k \<Rightarrow> hasher) \<Rightarrow> ('k, 'v) hamt \<Rightarrow> bool" where
  reach_new: "reach st (hamt_new st)"
| reach_step: "reach st h \<Longrightarrow> hamt_step h op = Some (Inr (r, h')) \<Longrightarrow> reach st h'"

lemma hamt_step_refines:
  assumes inv: "hamt_inv h" and ret: "hamt_step h op = Some y"
  shows "\<exists>r h'. y = Inr (r, h') \<and> hamt_inv h' \<and> state h' = state h \<and>
                (r, hamt_lookup h') = map_step (hamt_lookup h) op"
proof (cases op)
  case (Op_insert k v)
  have sep: "separable (state h) k (root h)"
  proof (rule ccontr)
    assume "\<not> separable (state h) k (root h)"
    from hamt_insert_diverges [OF inv this, of v] ret Op_insert show False by simp
  qed
  from hamt_insert_result [OF inv sep, of v] ret Op_insert show ?thesis by auto
next
  case (Op_get k)
  with ret hamt_get_lookup [OF inv, of k] inv show ?thesis by auto
qed

lemma hamt_exec_refines:
  "hamt_inv h \<Longrightarrow> hamt_exec h ops = Some y \<Longrightarrow>
   \<exists>rs h'. y = Inr (rs, h') \<and> hamt_inv h' \<and> state h' = state h \<and>
           (rs, hamt_lookup h') = map_exec (hamt_lookup h) ops"
proof (induction ops arbitrary: h y)
  case Nil
  then show ?case by auto
next
  case (Cons op ops)
  from Cons.prems obtain z where z: "hamt_step h op = Some z" by (auto split: option.splits)
  from hamt_step_refines [OF Cons.prems(1) z] obtain r h1 where
    z1: "z = Inr (r, h1)" and inv1: "hamt_inv h1" and st1: "state h1 = state h"
    and a1: "(r, hamt_lookup h1) = map_step (hamt_lookup h) op" by blast
  from Cons.prems(2) z z1 obtain y' where y': "hamt_exec h1 ops = Some y'" by (auto split: option.splits)
  from Cons.IH [OF inv1 y'] obtain rs h2 where "y' = Inr (rs, h2)" "hamt_inv h2" "state h2 = state h1"
    "(rs, hamt_lookup h2) = map_exec (hamt_lookup h1) ops" by blast
  with Cons.prems(2) z z1 y' st1 a1 show ?case by (auto simp: prod_eq_iff split: prod.splits)
qed

lemma reach_inv: "reach st h \<Longrightarrow> hamt_inv h \<and> state h = st"
proof (induction rule: reach.induct)
  case (reach_new st)
  then show ?case by (simp add: hamt_new_inv) (simp add: hamt_new_def)
next
  case (reach_step st h op r h')
  from hamt_step_refines [OF reach_step.IH [THEN conjunct1] reach_step.hyps(2)] reach_step.IH
  show ?case by auto
qed

lemma reach_exec:
  "reach st h \<Longrightarrow> hamt_exec h ops = Some (Inr (rs, h')) \<Longrightarrow> reach st h'"
proof (induction ops arbitrary: h rs)
  case Nil
  then show ?case by simp
next
  case (Cons op ops)
  then obtain r h1 rs1 where "hamt_step h op = Some (Inr (r, h1))" "hamt_exec h1 ops = Some (Inr (rs1, h'))"
    by (auto split: option.splits sum.splits prod.splits)
  with Cons.prems(1) Cons.IH show ?case by (blast intro: reach_step)
qed

lemma hamt_exec_returns:
  "hamt_inv h \<Longrightarrow>
   \<forall>a \<in> set (inserted_keys ops). \<forall>b \<in> set (inserted_keys ops) \<union> dom (hamt_lookup h). a \<noteq> b \<longrightarrow>
      (\<exists>n. key_idx (state h) a n \<noteq> key_idx (state h) b n) \<Longrightarrow>
   hamt_exec h ops \<noteq> None"
proof (induction ops arbitrary: h)
  case Nil
  then show ?case by simp
next
  case (Cons op ops)
  show ?case
  proof (cases op)
    case (Op_get k)
    with Cons.prems(2) have "hamt_exec h ops \<noteq> None" by (intro Cons.IH [OF Cons.prems(1)]) simp
    with Op_get hamt_get_lookup [OF Cons.prems(1), of k] show ?thesis by (auto split: option.splits sum.splits)
  next
    case (Op_insert k v)
    have sep: "separable (state h) k (root h)"
      using Cons.prems(2) Op_insert by (fastforce simp: separable_def hamt_lookup_def dom_map_of_conv_image_fst)
    from hamt_insert_result [OF Cons.prems(1) sep, of v] obtain h' where
      ins: "hamt_insert h k v = Some (Inr (hamt_lookup h k, h'))" and inv': "hamt_inv h'"
      and st: "state h' = state h" and lk: "hamt_lookup h' = (hamt_lookup h)(k \<mapsto> v)" by blast
    have "\<forall>a \<in> set (inserted_keys ops). \<forall>b \<in> set (inserted_keys ops) \<union> dom (hamt_lookup h'). a \<noteq> b \<longrightarrow>
        (\<exists>n. key_idx (state h') a n \<noteq> key_idx (state h') b n)"
      using Cons.prems(2) Op_insert st lk by auto
    from Cons.IH [OF inv' this] ins Op_insert show ?thesis by (auto split: option.splits sum.splits)
  qed
qed

lemma hamt_insert_count:
  "hamt_insert h k v = Some (Inr (old, h')) \<Longrightarrow>
   fl_count (free_list h') \<le> fl_count (free_list h) + (if old = None then 1 else 0)"
  by (auto simp: hamt_insert_def dest!: ins_walk_count split: option.splits sum.splits prod.splits)

text \<open>
  C11: the free list never holds more buffers than the map holds entries: on every map
  reachable from \<open>Hamt::new\<close>, \<open>singleton\<close> and \<open>pair\<close> only take buffers from the
  pool, \<open>push\<close> pools at most one (the array it replaces), and only an insert that adds
  an entry calls it.
\<close>

theorem hamt_free_list_bounded: "reach st h \<Longrightarrow> fl_count (free_list h) \<le> card (dom (hamt_lookup h))"
proof (induction rule: reach.induct)
  case (reach_new st)
  then show ?case by (simp add: hamt_new_def fl_count_def fl_new_def)
next
  case (reach_step st h op r h')
  have inv: "hamt_inv h" using reach_inv [OF reach_step.hyps(1)] by simp
  show ?case
  proof (cases op)
    case (Op_get k)
    with reach_step show ?thesis by (auto split: sum.splits)
  next
    case (Op_insert k v)
    with reach_step.hyps(2) obtain old where ins: "hamt_insert h k v = Some (Inr (old, h'))"
      by (auto split: option.splits sum.splits prod.splits)
    from hamt_step_refines [OF inv reach_step.hyps(2)] Op_insert
    have old: "Inserted old = Inserted (hamt_lookup h k)" and lk: "hamt_lookup h' = (hamt_lookup h)(k \<mapsto> v)"
      using ins reach_step.hyps(2) by auto
    have fin: "finite (dom (hamt_lookup h))" by (simp add: hamt_lookup_def finite_dom_map_of)
    have cd: "card (dom (hamt_lookup h')) =
        (if hamt_lookup h k = None then Suc (card (dom (hamt_lookup h))) else card (dom (hamt_lookup h)))"
      unfolding lk dom_fun_upd using fin by (simp add: card_insert_if domIff)
    from hamt_insert_count [OF ins] reach_step.IH old cd show ?thesis by (simp split: if_splits)
  qed
qed

text \<open>
  C12: the trie is no deeper than its keys need: on a reachable map whose stored keys'
  streams pairwise differ within their first \<open>D\<close> indices, the root has at most \<open>D\<close>
  levels, so \<open>get\<close> and \<open>insert\<close> read at most \<open>D\<close> indices of a stream.
\<close>

theorem hamt_depth_bound:
  assumes r: "reach st h" and D: "0 < D"
    and sep: "\<forall>a \<in> dom (hamt_lookup h). \<forall>b \<in> dom (hamt_lookup h). a \<noteq> b \<longrightarrow>
                (\<exists>n < D. key_idx st a n \<noteq> key_idx st b n)"
  shows "node_height (root h) \<le> D"
proof -
  from reach_inv [OF r] have wf: "wf_node st [] (root h)" and c: "root h = node_empty \<or> compact (root h)"
    by (auto simp: hamt_inv_def)
  show ?thesis
  proof (cases "root h = node_empty")
    case True
    with D show ?thesis by (simp add: node_empty_def)
  next
    case False
    with c have "compact (root h)" by simp
    moreover have "fst ` set (leaves (root h)) = dom (hamt_lookup h)"
      by (simp add: hamt_lookup_def dom_map_of_conv_image_fst)
    ultimately show ?thesis using wf_height_bound [OF wf, of D] sep by simp
  qed
qed

text \<open>
  C13: dropping a map a program holds (\<open>impl Drop for Node\<close> on its root) faults exactly
  when the map is empty, by dereferencing the null child array of \<open>Node::empty()\<close>;
  for a non-empty map it returns normally but releases a single stored entry, the first
  leaf reached through the first children.
\<close>

theorem hamt_drop_root:
  assumes "reach st h"
  shows "(node_drop (root h) = Inl Null_dereference) = (hamt_lookup h = Map.empty) \<and>
         (hamt_lookup h \<noteq> Map.empty \<longrightarrow>
            (\<exists>k v. node_drop (root h) = Inr [(k, v)] \<and> hamt_lookup h k = Some v))"
proof -
  have inv: "hamt_inv h" using reach_inv [OF assms] by simp
  show ?thesis
  proof (cases "hamt_lookup h = Map.empty")
    case True
    with hamt_root_empty_iff [OF inv] show ?thesis by (simp add: node_empty_def)
  next
    case False
    with hamt_root_empty_iff [OF inv] inv have "compact (root h)" by (simp add: hamt_inv_def)
    from compact_node_drop [OF this] obtain k v where d: "node_drop (root h) = Inr [(k, v)]"
      and kv: "(k, v) \<in> set (leaves (root h))" by blast
    have "distinct (map fst (leaves (root h)))" using inv wf_distinct by (auto simp: hamt_inv_def)
    with kv have "hamt_lookup h k = Some v" by (simp add: hamt_lookup_def)
    with d False show ?thesis by auto
  qed
qed

end
