(* ===== verification/Node_Debug.thy ===== *)
theory Node_Debug
  imports Node HashStream
begin

text \<open>
  \<open>impl fmt::Debug for Node\<close> (\<open>src/node.rs\<close>): a leaf prints its key and value
  pointer, a branch its bitmap in binary and then, for each set index, the child read at
  \<open>base.offset(ones)\<close> where \<open>ones\<close> counts the set bits seen so far. The output is
  a string (the formatter is taken to be infallible); \<open>dk\<close> is \<open>Debug\<close> of the key
  and \<open>dv\<close> the pointer formatting of the value's address. A read past the child array is
  \<open>Undefined_behaviour\<close>.
\<close>

function (sequential) node_fmt :: "('k \<Rightarrow> string) \<Rightarrow> ('v \<Rightarrow> string) \<Rightarrow> ('k, 'v) node \<Rightarrow> error + string"
  and fmt_children :: "('k \<Rightarrow> string) \<Rightarrow> ('v \<Rightarrow> string) \<Rightarrow> bitmap \<Rightarrow> ('k, 'v) node list \<Rightarrow> nat \<Rightarrow> nat
      \<Rightarrow> error + string" where
  "node_fmt dk dv (Leaf k v) = Inr (dk k @ '':'' @ dv v @ [CHR 0x0A])"
| "node_fmt dk dv (Branch m cs) =
     (case fmt_children dk dv m cs 0 0 of
        Inl e \<Rightarrow> Inl e
      | Inr s \<Rightarrow> Inr (fmt_radix 2 (unat (bm_get m)) @ '':'' @ [CHR 0x0A] @ s))"
| "fmt_children dk dv m cs i ones =
     (if i < BITS_IN_POINTER then
        (if is_set m i then
           (if ones < length cs then
              (case node_fmt dk dv (cs ! ones) of
                 Inl e \<Rightarrow> Inl e
               | Inr s \<Rightarrow>
                   (case fmt_children dk dv m cs (Suc i) (Suc ones) of
                      Inl e \<Rightarrow> Inl e
                    | Inr r \<Rightarrow> Inr (''  '' @ fmt_radix 10 i @ ''->'' @ s @ r)))
            else Inl Undefined_behaviour)
         else fmt_children dk dv m cs (Suc i) ones)
      else Inr [])"
  by pat_completeness auto
termination
proof (relation "inv_image (less_than <*lex*> less_than)
    (\<lambda>x. case x of Inl (_, _, t) \<Rightarrow> (size t, 65 :: nat) | Inr (_, _, _, cs, i, _) \<Rightarrow> (size_list size cs, 64 - i))")
  show "wf (inv_image (less_than <*lex*> less_than)
    (\<lambda>x. case x of Inl (_, _, t) \<Rightarrow> (size t, 65 :: nat) | Inr (_, _, _, cs, i, _) \<Rightarrow> (size_list size cs, 64 - i)))"
    by (intro wf_inv_image wf_lex_prod wf_less_than)
qed (auto simp: BITS_IN_POINTER_def BITS_IN_BYTE_def size_nth_child_lt)

declare fmt_children.simps [simp del]

lemma fmt_children_rank:
  assumes len: "length cs = set_bits m" and kids: "\<forall>c \<in> set cs. node_fmt dk dv c = Inr (f c)"
  shows "i \<le> 64 \<Longrightarrow> fmt_children dk dv m cs i (set_bits_under m i) =
           Inr (concat (map (\<lambda>j. ''  '' @ fmt_radix 10 j @ ''->'' @ f (cs ! set_bits_under m j))
                          (filter (is_set m) [i..<64])))"
proof (induction "64 - i" arbitrary: i)
  case 0
  then have "i = 64" by simp
  then show ?case by (subst fmt_children.simps) (simp add: BITS_IN_POINTER_def BITS_IN_BYTE_def)
next
  case (Suc k)
  then have i: "i < 64" by simp
  have IH: "fmt_children dk dv m cs (Suc i) (set_bits_under m (Suc i)) =
           Inr (concat (map (\<lambda>j. ''  '' @ fmt_radix 10 j @ ''->'' @ f (cs ! set_bits_under m j))
                          (filter (is_set m) [Suc i..<64])))"
    using Suc by simp
  have upt: "[i..<64] = i # [Suc i..<64]" using i by (simp add: upt_rec)
  show ?case
  proof (cases "is_set m i")
    case True
    have n: "set_bits_under m i < length cs" using len set_bits_under_lt_set_bits [OF True] by simp
    then have "node_fmt dk dv (cs ! set_bits_under m i) = Inr (f (cs ! set_bits_under m i))"
      using kids by simp
    with True n IH i upt show ?thesis
      by (subst fmt_children.simps) (simp add: BITS_IN_POINTER_def BITS_IN_BYTE_def set_bits_under_Suc)
  next
    case False
    with IH i upt show ?thesis
      by (subst fmt_children.simps) (simp add: BITS_IN_POINTER_def BITS_IN_BYTE_def set_bits_under_Suc)
  qed
qed

text \<open>
  C22: the \<open>Debug\<close> loop's counter \<open>ones\<close> is the rank: on a branch whose child
  array has one cell per set bit, the output is the bitmap in binary, then for each set
  index \<open>j\<close> in increasing order \<open>"  j->"\<close> and the child at rank \<open>j\<close>.
\<close>

theorem debug_children_in_rank:
  assumes "length cs = set_bits m" "\<forall>c \<in> set cs. node_fmt dk dv c = Inr (f c)"
  shows "node_fmt dk dv (Branch m cs) =
           Inr (fmt_radix 2 (unat (bm_get m)) @ '':'' @ [CHR 0x0A] @
                concat (map (\<lambda>j. ''  '' @ fmt_radix 10 j @ ''->'' @ f (cs ! set_bits_under m j)) (bm_indices m)))"
proof -
  have "set_bits_under m 0 = 0" by (simp add: set_bits_under_filter)
  with fmt_children_rank [OF assms, of 0] show ?thesis by (simp add: bm_indices_def)
qed

theorem debug_children_in_rank_witness:
  "node_fmt (fmt_radix 10) (fmt_radix 10) (Branch (BitMap 5) [Leaf (1 :: nat) (1 :: nat), Leaf 2 2]) =
     Inr (''101:'' @ [CHR 0x0A] @ ''  0->1:1'' @ [CHR 0x0A] @ ''  2->2:2'' @ [CHR 0x0A])"
proof -
  let ?f = "\<lambda>c. projr (node_fmt (fmt_radix 10) (fmt_radix 10) c)"
  have len: "length [Leaf (1 :: nat) (1 :: nat), Leaf 2 2] = set_bits (BitMap 5)" by code_simp
  have kids: "\<forall>c \<in> set [Leaf (1 :: nat) (1 :: nat), Leaf 2 2].
      node_fmt (fmt_radix 10) (fmt_radix 10) c = Inr (?f c)" by simp
  have "node_fmt (fmt_radix 10) (fmt_radix 10) (Branch (BitMap 5) [Leaf (1 :: nat) (1 :: nat), Leaf 2 2]) =
           Inr (fmt_radix 2 (unat (bm_get (BitMap 5))) @ '':'' @ [CHR 0x0A] @
                concat (map (\<lambda>j. ''  '' @ fmt_radix 10 j @ ''->'' @
                  ?f ([Leaf (1 :: nat) (1 :: nat), Leaf 2 2] ! set_bits_under (BitMap 5) j)) (bm_indices (BitMap 5))))"
    by (rule debug_children_in_rank [OF len kids])
  also have "\<dots> = Inr (''101:'' @ [CHR 0x0A] @ ''  0->1:1'' @ [CHR 0x0A] @ ''  2->2:2'' @ [CHR 0x0A])"
    by code_simp
  finally show ?thesis .
qed

end
