(* ===== verification/Spec2Isabelle.thy ===== *)
theory Spec2Isabelle
  imports Hamt_Client Node_Debug
begin

text \<open>
  \<^bold>\<open>A verification library for the hash array mapped trie of WaDelma/hamt.\<close>

  The program (\<open>src/src/*.rs\<close>) is a map stored as a trie whose branches are
  indexed by successive 6-bit groups of the key's 64-bit hash, the occupied children of
  a branch stored compactly in rank order. Its parts and how they interact:
  \<^item> \<open>map.rs\<close>, \<open>BitMap\<close>: the presence bitmap of a branch and its rank query.
    Theory \<open>BitMap\<close>: datatype \<open>bitmap\<close> (the \<open>usize\<close> newtype) and one function
    per method (\<open>is_set\<close>, \<open>set_bits\<close>, \<open>set_bits_under\<close>, \<open>bm_set\<close>, ...).
  \<^item> \<open>hash_stream.rs\<close>, \<open>HashStream\<close>: turns a hasher into an endless stream of 6-bit
    indices, re-hashing with a marker byte when the 64-bit reservoir runs low. Theory
    \<open>HashStream\<close>: record \<open>hash_stream\<close> (hasher, \<open>reservoy\<close>, \<open>eaten\<close> as
    \<open>u64\<close> and \<open>u8\<close> words), \<open>hs_new\<close>, \<open>hs_next\<close> (both branches of
    \<open>next\<close>), \<open>hs_take\<close> and \<open>hs_skip\<close> (the iterator adaptors the code and its
    test use), the test's mock hasher, and two hash builders for concrete runs. The
    \<open>Hasher\<close> trait is modelled by its contract: \<open>finish\<close> is a function of the
    bytes written.
  \<^item> \<open>node.rs\<close>, \<open>Node\<close>: the two-word tagged cell. Theory \<open>Node\<close>: the word-level
    representation (\<open>node_repr\<close>, \<open>repr_inner\<close>, \<open>repr_set_base\<close>, ...) and
    the datatype \<open>node\<close> (\<open>Leaf\<close> / \<open>Branch\<close>) the algorithms work on, with
    \<open>node_set_base\<close>, \<open>node_map_set\<close>, \<open>node_set_value\<close> and \<open>node_drop\<close>
    (\<open>impl Drop\<close>). Theory \<open>Node_Debug\<close>: \<open>impl Debug\<close> as \<open>node_fmt\<close> and
    its loop \<open>fmt_children\<close>, producing a string.
  \<^item> \<open>free_list.rs\<close>, \<open>FreeList\<close>: 64 stacks of freed child arrays by length.
    Theory \<open>FreeList\<close>: \<open>singleton\<close>, \<open>pair\<close>, \<open>push\<close>, \<open>free\<close>,
    \<open>free_internal\<close> on a list of stacks of pooled buffers that keep their stale
    contents.
  \<^item> \<open>lib.rs\<close>, \<open>Hamt\<close>: owns the hash builder, the root and the free list;
    \<open>get\<close> and \<open>insert\<close> walk the trie along the key's stream, ask the free list
    for buffers, and mutate cells through the \<open>Node\<close> methods. Theory \<open>Hamt\<close>:
    record \<open>hamt\<close>, \<open>get_walk\<close>/\<open>hamt_get\<close>, \<open>ins_walk\<close>/\<open>hamt_insert\<close>,
    the collision loop \<open>split_loop\<close> and the swap loop \<open>shift_down\<close>; the trie
    invariant \<open>hamt_inv\<close> (\<open>wf_node\<close>: every leaf on its key's index path and
    one child per set bit in rank order; \<open>compact\<close>: every branch but the empty
    root holds two entries or more; \<open>fl_ok\<close> for the free list), the depth measure
    \<open>node_height\<close>, and the abstraction
    \<open>hamt_lookup\<close> (the finite map of the entries). Theory \<open>Hamt_Insert\<close>: the proofs about
    \<open>insert\<close>. Theory \<open>Hamt_Client\<close>: the public interface as a client drives it,
    an operation datatype (\<open>Op_insert\<close>, \<open>Op_get\<close>) with the step function
    \<open>hamt_step\<close> over \<open>hamt_insert\<close> and \<open>hamt_get\<close>, sequences of calls
    \<open>hamt_exec\<close>, the abstract finite-map machine \<open>map_step\<close>/\<open>map_exec\<close>, and
    the inductive relation \<open>reach\<close> of the maps a program can hold (built by
    \<open>Hamt::new\<close>, changed by calls that returned). This theory: the repository's test \<open>insert_get\<close>
    (\<open>test_gets\<close>, \<open>insert_get_loop\<close>), a client's sequence of inserts
    \<open>insert_all\<close>, and the properties of the whole map.
  Theory \<open>Prelude\<close> holds the machine types, the \<open>error\<close> values that stand for
  panics and undefined behaviour, the population count, Rust's integer formatting and
  shared list lemmas.

  State and effects: every mutation is explicit state passing (the new cell, the new
  free list and the returned value); every panic, use after free, null dereference and
  unchecked out-of-bounds read of the source is an \<open>Inl\<close> value of \<open>error\<close>; the
  collision loop is a \<^theory_text>\<open>partial_function (option)\<close> whose \<open>None\<close> means it
  runs forever. Words keep the source's widths: \<open>usize\<close> and \<open>u64\<close> are
  \<open>64 word\<close>, \<open>u8\<close> is \<open>8 word\<close>; the target is taken to be 64-bit, so
  \<open>BITS_IN_POINTER\<close> is 64 and a group is 6 bits. No fuel is used: the walks of
  \<open>get\<close>, \<open>insert\<close> and \<open>Debug\<close> terminate by the size of the trie, and the
  only loop that may not end, the collision loop, returns \<open>None\<close> exactly when it
  runs forever.

  What the lemmas show, by theory:
  \<^item> \<open>BitMap\<close>: each operation bitwise; rank equals the number of set bits below
    the index and indexes the children.
  \<^item> \<open>HashStream\<close>: the \<open>n\<close>-th value is bits \<open>6n..6n+5\<close> of the concatenated
    digests (a refinement of the stream by the abstract bit string), the \<open>u8\<close>
    counter never wraps and every value is below 64, and the source's test sequence.
  \<^item> \<open>Node\<close>: decoding inverts encoding for aligned addresses; the wrong-variant
    mutators refuse; the findings on alignment and on \<open>Drop\<close>.
  \<^item> \<open>Node_Debug\<close>: the loop's counter is the rank, so children print in index order.
  \<^item> \<open>FreeList\<close>: the size-class invariant is kept, results hold exactly the
    requested elements (no stale data), errors, buffer accounting (\<open>singleton\<close> and
    \<open>pair\<close> never add to the pool, \<open>push\<close> adds at most one buffer), the finding on
    \<open>free\<close>.
  \<^item> \<open>Hamt\<close>, \<open>Hamt_Insert\<close>: \<open>get\<close> refines \<open>hamt_lookup\<close>; the swap loop is
    insertion at a position; the collision loop builds exactly the chain of
    single-child branches and the ordered two-leaf branch the spec describes, returns
    when the two streams eventually differ and runs forever when they never do;
    \<open>insert\<close> refines map update and keeps the invariant; overwriting a present
    key changes only its leaf's value (\<open>node_upd\<close>); a well-formed compact
    trie is determined by its entries.
  \<^item> \<open>Hamt_Client\<close>: one call refines the finite-map step on a well-formed map, and
    so does a sequence of calls; reachable maps satisfy the invariant (rule induction
    on \<open>reach\<close>); two resource bounds on reachable maps: the free list never pools
    more buffers than the map has entries, and the trie is no deeper
    (\<open>node_height\<close>) than the number of indices its keys need to be told apart.
  \<^item> Here: the properties of the map (refinement and invariant of \<open>insert\<close>,
    overwriting with no hypothesis on the hashes, the insert/get round trip, \<open>insert\<close>
    returning exactly when the new key's stream is told apart from every stored key's,
    simulation of the finite-map machine by every reachable map and total correctness
    of a sequence of calls whose inserted keys are told apart, no fault on any call,
    \<open>get\<close>, \<open>Debug\<close> without undefined behaviour, dropping a reachable map faulting
    exactly when it is empty), sequences of inserts, the canonical form (reachable maps
    with the same entries have the same root, so the order of inserts does not
    matter), and the repository's test \<open>insert_get\<close>, with the drop of the map at its
    end, passing for every size from 1 under a hash builder that tells the keys apart
    (for size 0 the drop of the empty root dereferences null). The separation
    hypothesis (two keys' streams differ somewhere) is necessary: without it the
    collision loop does not return.

  Not modelled: the choice of \<open>RandomState\<close> (an injected capability, a parameter
  here), the \<open>fmt::Formatter\<close> failing (taken to be infallible) and the textual form
  of a pointer (a parameter), the memory layout of allocations beyond the addresses the
  tag bit depends on, and the unused constants \<open>BLOCK_SIZE\<close> and
  \<open>DEFRAG_TRESHOLD\<close>. Two deliberate departures, both outside what the program
  reaches or stated separately: the \<open>BitMap\<close> methods are modelled with \<open>push_bit\<close>
  and \<open>drop_bit\<close>, which agree with Rust's shifts only for indices below 64 (Rust
  overflows from 64 on); every index the trie passes is a 6-bit hash index, and the
  lemmas about the methods assume \<open>i < 64\<close>. The algorithms work on the datatype
  \<open>node\<close>, whose variant is fixed, while the code decodes it from the tag bit; the
  word-level theorems of \<open>Node\<close> state where that decoding fails (odd value
  addresses, as for zero-sized values).
\<close>

text \<open>
  A concrete map for the witnesses: keys 1 and 65 under \<open>demo_state\<close>, as
  \<open>insert\<close> builds them from \<open>Hamt::new\<close> (a one-child branch over a two-leaf
  branch; \<open>demo_step1\<close> and \<open>demo_step2\<close> below compute the two calls).
\<close>

definition demo_h :: "(nat, char list) hamt" where
  "demo_h = \<lparr>state = demo_state,
     root = Branch (BitMap 2) [Branch (BitMap 3) [Leaf 1 ''a'', Leaf 65 ''b'']],
     free_list = fl_new ()\<rparr>"

text \<open>
  The repository's test \<open>insert_get\<close> (\<open>src/lib.rs\<close>): for \<open>i\<close> in
  \<open>0..n\<close>, insert \<open>(i, i)\<close> and assert that every \<open>a \<le> i\<close> is found; a failed
  \<open>assert_eq!\<close> is \<open>Assertion_failed\<close>. The hash builder, \<open>RandomState\<close> in the
  test, is a parameter.
\<close>

fun test_gets :: "(nat, nat) hamt \<Rightarrow> nat list \<Rightarrow> error + unit" where
  "test_gets h [] = Inr ()"
| "test_gets h (a # as) =
     (case hamt_get h a of
        Inl e \<Rightarrow> Inl e
      | Inr r \<Rightarrow> if r = Some a then test_gets h as else Inl Assertion_failed)"

fun insert_get_loop ::
  "(nat \<Rightarrow> hasher) \<Rightarrow> nat list \<Rightarrow> (nat, nat) hamt \<Rightarrow> (error + (nat, nat) hamt) option" where
  "insert_get_loop st [] h = Some (Inr h)"
| "insert_get_loop st (i # is) h =
     (case hamt_insert h i i of
        None \<Rightarrow> None
      | Some (Inl e) \<Rightarrow> Some (Inl e)
      | Some (Inr (_, h')) \<Rightarrow>
          (case test_gets h' [0..<Suc i] of
             Inl e \<Rightarrow> Some (Inl e)
           | Inr _ \<Rightarrow> insert_get_loop st is h'))"

text \<open>
  At the end of the test \<open>hamt\<close> goes out of scope: \<open>Drop\<close> runs on its root
  (\<open>node_drop\<close>), and the test fails if that faults.
\<close>

definition insert_get :: "(nat \<Rightarrow> hasher) \<Rightarrow> nat \<Rightarrow> (error + unit) option" where
  "insert_get st n =
     (case insert_get_loop st [0..<n] (hamt_new st) of
        None \<Rightarrow> None
      | Some (Inl e) \<Rightarrow> Some (Inl e)
      | Some (Inr h) \<Rightarrow> Some (case node_drop (root h) of Inl e \<Rightarrow> Inl e | Inr _ \<Rightarrow> Inr ()))"

text \<open>
  A client's sequence of inserts: \<open>insert_all h kvs\<close> calls \<open>insert\<close> on each pair in
  order, stopping at the first fault.
\<close>

fun insert_all :: "('k, 'v) hamt \<Rightarrow> ('k \<times> 'v) list \<Rightarrow> (error + ('k, 'v) hamt) option" where
  "insert_all h [] = Some (Inr h)"
| "insert_all h ((k, v) # kvs) =
     (case hamt_insert h k v of
        None \<Rightarrow> None
      | Some (Inl e) \<Rightarrow> Some (Inl e)
      | Some (Inr (_, h')) \<Rightarrow> insert_all h' kvs)"

lemma demo_h_inv: "hamt_inv demo_h"
proof -
  have "wf_node demo_state [] (root demo_h)" by code_simp
  then show ?thesis by (simp add: hamt_inv_def demo_h_def fl_ok_new)
qed

lemma demo_h_separable: "separable (state demo_h) 2 (root demo_h)"
proof -
  have "key_idx demo_state (2 :: nat) 0 \<noteq> key_idx demo_state 1 0"
    and "key_idx demo_state (2 :: nat) 0 \<noteq> key_idx demo_state 65 0" by code_simp+
  then show ?thesis by (auto simp: separable_def demo_h_def)
qed

lemma demo_sep:
  "\<forall>a \<in> {2::nat, 66}. \<forall>b \<in> {2, 66} \<union> dom (hamt_lookup demo_h).
      a \<noteq> b \<longrightarrow> (\<exists>n. key_idx (state demo_h) a n \<noteq> key_idx (state demo_h) b n)"
proof -
  have i0: "key_idx demo_state (2::nat) 0 = 2" "key_idx demo_state (66::nat) 0 = 2"
    "key_idx demo_state (1::nat) 0 = 1" "key_idx demo_state (65::nat) 0 = 1" by code_simp+
  have i1: "key_idx demo_state (2::nat) 1 = 0" "key_idx demo_state (66::nat) 1 = 1" by code_simp+
  have dom: "dom (hamt_lookup demo_h) = {1, 65}"
    unfolding dom_hamt_lookup by (simp add: demo_h_def)
  have e: "\<exists>n. key_idx demo_state (2::nat) n \<noteq> key_idx demo_state 66 n"
    "\<exists>n. key_idx demo_state (66::nat) n \<noteq> key_idx demo_state 2 n"
    using i1 by (intro exI [of _ 1], simp)+
  have e0: "\<exists>n. key_idx demo_state (2::nat) n \<noteq> key_idx demo_state 1 n"
    "\<exists>n. key_idx demo_state (2::nat) n \<noteq> key_idx demo_state 65 n"
    "\<exists>n. key_idx demo_state (66::nat) n \<noteq> key_idx demo_state 1 n"
    "\<exists>n. key_idx demo_state (66::nat) n \<noteq> key_idx demo_state 65 n"
    using i0 by (intro exI [of _ 0], simp)+
  show ?thesis unfolding dom using e e0 by (simp add: demo_h_def)
qed

section \<open>Properties of the map\<close>

text \<open>
  C1: \<open>insert\<close> refines map update: on a well-formed map, inserting a key whose stream
  can be told apart from every stored key's returns the key's previous value and a map
  whose lookups are the old lookups updated at the key.
\<close>

theorem hamt_insert_correct:
  assumes "hamt_inv h" "separable (state h) key (root h)"
  shows "\<exists>h'. hamt_insert h key value = Some (Inr (hamt_lookup h key, h')) \<and>
              hamt_lookup h' = (hamt_lookup h)(key \<mapsto> value)"
  using hamt_insert_result [OF assms, of "value"] by blast

theorem hamt_insert_correct_witness:
  "\<exists>h'. hamt_insert demo_h 2 ''c'' = Some (Inr (hamt_lookup demo_h 2, h')) \<and>
        hamt_lookup h' = (hamt_lookup demo_h)(2 \<mapsto> ''c'')"
  by (rule hamt_insert_correct [OF demo_h_inv demo_h_separable])

text \<open>
  C2: \<open>insert\<close> keeps the invariant: the trie stays well formed (every leaf on its key's
  path, every child array one cell per set bit), the free list keeps its size classes,
  and the hash builder is unchanged.
\<close>

theorem hamt_insert_inv:
  assumes "hamt_inv h" "separable (state h) key (root h)"
  shows "\<exists>old h'. hamt_insert h key value = Some (Inr (old, h')) \<and> hamt_inv h' \<and> state h' = state h"
  using hamt_insert_result [OF assms, of "value"] by blast

theorem hamt_insert_inv_witness:
  "\<exists>old h'. hamt_insert demo_h 2 ''c'' = Some (Inr (old, h')) \<and> hamt_inv h' \<and> state h' = state demo_h"
  by (rule hamt_insert_inv [OF demo_h_inv demo_h_separable])

text \<open>
  C3: \<open>get\<close> refines the abstract map: on a well-formed map, the walk along the key's
  stream finds exactly the value the trie's entry list associates with the key.
\<close>

theorem hamt_get_correct:
  "hamt_inv h \<Longrightarrow> hamt_get h k = Inr (hamt_lookup h k)"
  by (rule hamt_get_lookup)

theorem hamt_get_correct_witness:
  "hamt_get demo_h 65 = Inr (hamt_lookup demo_h 65)"
  by (rule hamt_get_correct [OF demo_h_inv])

lemma test_gets_ok:
  "hamt_inv h \<Longrightarrow> \<forall>a \<in> set as. hamt_lookup h a = Some a \<Longrightarrow> test_gets h as = Inr ()"
  by (induction as) (simp_all add: hamt_get_lookup)

lemma insert_get_loop_ok:
  assumes sep: "\<forall>a < n. \<forall>b < n. a \<noteq> b \<longrightarrow> (\<exists>k. key_idx st a k \<noteq> key_idx st b k)"
  shows "hamt_inv h \<Longrightarrow> state h = st \<Longrightarrow> (\<forall>a < i. hamt_lookup h a = Some a) \<Longrightarrow>
         set (map fst (leaves (root h))) \<subseteq> {..<i} \<Longrightarrow>
         \<exists>h'. insert_get_loop st [i..<n] h = Some (Inr h') \<and> hamt_inv h' \<and>
              (\<forall>a < max i n. hamt_lookup h' a = Some a) \<and> set (map fst (leaves (root h'))) \<subseteq> {..<max i n}"
proof (induction "n - i" arbitrary: i h)
  case 0
  then show ?case by simp
next
  case (Suc m)
  then have i: "i < n" by simp
  have "separable (state h) i (root h)"
    unfolding separable_def using Suc.prems(2,4) sep i by auto
  then obtain h' where ins: "hamt_insert h i i = Some (Inr (hamt_lookup h i, h'))" and inv': "hamt_inv h'"
    and st': "state h' = state h" and get': "hamt_lookup h' = (hamt_lookup h)(i \<mapsto> i)"
    using hamt_insert_result [OF Suc.prems(1)] by blast
  have all: "test_gets h' [0..<Suc i] = Inr ()"
    using Suc.prems(3) get' by (intro test_gets_ok [OF inv']) auto
  have keys: "set (map fst (leaves (root h'))) \<subseteq> {..<Suc i}"
  proof
    fix k assume "k \<in> set (map fst (leaves (root h')))"
    then have "hamt_lookup h' k \<noteq> None" by (auto simp: hamt_lookup_def map_of_eq_None_iff)
    then have "k = i \<or> hamt_lookup h k \<noteq> None" using get' by (auto split: if_splits)
    then show "k \<in> {..<Suc i}"
      using Suc.prems(4) by (auto simp: hamt_lookup_def map_of_eq_None_iff)
  qed
  have m: "m = n - Suc i" using Suc.hyps(2) by simp
  have pre: "\<forall>a < Suc i. hamt_lookup h' a = Some a" using Suc.prems(3) get' by (auto simp: less_Suc_eq)
  from Suc.hyps(1) [OF m inv' _ pre keys] st' Suc.prems(2) obtain h'' where
      "insert_get_loop st [Suc i..<n] h' = Some (Inr h'')" "hamt_inv h''"
      "\<forall>a < max (Suc i) n. hamt_lookup h'' a = Some a" "set (map fst (leaves (root h''))) \<subseteq> {..<max (Suc i) n}"
    by blast
  moreover have "max (Suc i) n = max i n" using i by simp
  ultimately show ?case using i ins all by (simp add: upt_conv_Cons)
qed

lemma insert_get_final:
  assumes "\<forall>a < n. \<forall>b < n. a \<noteq> b \<longrightarrow> (\<exists>k. key_idx st a k \<noteq> key_idx st b k)"
  shows "\<exists>h. insert_get_loop st [0..<n] (hamt_new st) = Some (Inr h) \<and> hamt_inv h \<and>
             dom (hamt_lookup h) = {..<n}"
proof -
  obtain h where h: "insert_get_loop st [0..<n] (hamt_new st) = Some (Inr h)" "hamt_inv h"
      "\<forall>a < n. hamt_lookup h a = Some a" "set (map fst (leaves (root h))) \<subseteq> {..<n}"
    using insert_get_loop_ok [OF assms, of "hamt_new st" 0]
    by (auto simp: hamt_new_inv, auto simp: hamt_new_def node_empty_def)
  have "dom (hamt_lookup h) = {..<n}"
  proof
    show "dom (hamt_lookup h) \<subseteq> {..<n}" using h(4) by (simp add: dom_hamt_lookup)
    show "{..<n} \<subseteq> dom (hamt_lookup h)" using h(3) by auto
  qed
  with h show ?thesis by blast
qed

text \<open>
  C14: the repository's test \<open>insert_get\<close>, including the drop of the map at its
  end, passes for every \<open>n \<ge> 1\<close> (not only 5000) under any hash builder whose streams
  tell the keys \<open>0..n-1\<close> apart: every insert returns, every key inserted so far is
  found with its value, and dropping the non-empty root releases a leaf without fault.
  For \<open>n = 0\<close> the loop passes but the drop of the empty root dereferences null.
\<close>

theorem insert_get_passes:
  "\<forall>a < n. \<forall>b < n. a \<noteq> b \<longrightarrow> (\<exists>k. key_idx st a k \<noteq> key_idx st b k) \<Longrightarrow>
   insert_get st n = Some (if n = 0 then Inl Null_dereference else Inr ())"
proof -
  assume sep: "\<forall>a < n. \<forall>b < n. a \<noteq> b \<longrightarrow> (\<exists>k. key_idx st a k \<noteq> key_idx st b k)"
  obtain h where loop: "insert_get_loop st [0..<n] (hamt_new st) = Some (Inr h)" and inv: "hamt_inv h"
    and d: "dom (hamt_lookup h) = {..<n}" using insert_get_final [OF sep] by blast
  show ?thesis
  proof (cases "n = 0")
    case True
    with d hamt_root_empty_iff [OF inv] have "root h = node_empty" by simp
    with loop True show ?thesis by (simp add: insert_get_def node_empty_def)
  next
    case False
    with d hamt_root_empty_iff [OF inv] have "root h \<noteq> node_empty" by auto
    with inv have "compact (root h)" by (simp add: hamt_inv_def)
    from compact_node_drop [OF this] loop False show ?thesis by (auto simp: insert_get_def)
  qed
qed

theorem insert_get_passes_witness: "insert_get demo_state 3 = Some (Inr ())"
proof -
  have "key_idx demo_state (0::nat) 0 = 0" "key_idx demo_state (1::nat) 0 = 1" "key_idx demo_state (2::nat) 0 = 2"
    by code_simp+
  then have "\<forall>a < 3. \<forall>b < 3. a \<noteq> b \<longrightarrow> (\<exists>k. key_idx demo_state a k \<noteq> key_idx demo_state b k)"
    by (auto simp: less_Suc_eq numeral_3_eq_3 numeral_2_eq_2 intro!: exI [of _ 0])
  from insert_get_passes [OF this] show ?thesis by simp
qed

lemma insert_all_exec:
  "insert_all h kvs =
     (case hamt_exec h (map (\<lambda>(k, v). Op_insert k v) kvs) of
        None \<Rightarrow> None
      | Some (Inl e) \<Rightarrow> Some (Inl e)
      | Some (Inr (_, h')) \<Rightarrow> Some (Inr h'))"
  by (induction h kvs rule: insert_all.induct) (auto split: option.splits sum.splits prod.splits)

lemma inserted_keys_inserts: "inserted_keys (map (\<lambda>(k, v). Op_insert k v) kvs) = map fst kvs"
  by (induction kvs) auto

lemma map_exec_inserts:
  "snd (map_exec m (map (\<lambda>(k, v). Op_insert k v) kvs)) = fold (\<lambda>(k, v) m. m(k \<mapsto> v)) kvs m"
  by (induction kvs arbitrary: m) (simp_all add: split_def)

lemma insert_all_result:
  assumes inv: "hamt_inv h"
    and sep: "\<forall>a \<in> fst ` set kvs. \<forall>b \<in> fst ` set kvs \<union> dom (hamt_lookup h). a \<noteq> b \<longrightarrow>
                (\<exists>n. key_idx (state h) a n \<noteq> key_idx (state h) b n)"
  shows "\<exists>h'. insert_all h kvs = Some (Inr h') \<and> hamt_inv h' \<and> state h' = state h \<and>
              hamt_lookup h' = fold (\<lambda>(k, v) m. m(k \<mapsto> v)) kvs (hamt_lookup h)"
proof -
  let ?ops = "map (\<lambda>(k, v). Op_insert k v) kvs"
  have "hamt_exec h ?ops \<noteq> None"
    using hamt_exec_returns [OF inv, of ?ops] sep by (simp add: inserted_keys_inserts)
  then obtain y where y: "hamt_exec h ?ops = Some y" by blast
  from hamt_exec_refines [OF inv y] obtain rs h' where "y = Inr (rs, h')" "hamt_inv h'" "state h' = state h"
    "(rs, hamt_lookup h') = map_exec (hamt_lookup h) ?ops" by blast
  with y show ?thesis
    by (auto simp: insert_all_exec map_exec_inserts [symmetric] dest: arg_cong [where f = snd])
qed

text \<open>
  C15: a sequence of inserts refines the sequence of map updates: on a well-formed map,
  when every inserted key's stream can be told apart from the other inserted and stored
  keys', the inserts all return, keep the invariant, and the lookups of the final map are
  the old lookups updated by the pairs in order (a later pair for the same key wins).
\<close>

theorem insert_all_correct:
  "hamt_inv h \<Longrightarrow>
   \<forall>a \<in> fst ` set kvs. \<forall>b \<in> fst ` set kvs \<union> dom (hamt_lookup h). a \<noteq> b \<longrightarrow>
      (\<exists>n. key_idx (state h) a n \<noteq> key_idx (state h) b n) \<Longrightarrow>
   \<exists>h'. insert_all h kvs = Some (Inr h') \<and> hamt_inv h' \<and> state h' = state h \<and>
        hamt_lookup h' = fold (\<lambda>(k, v) m. m(k \<mapsto> v)) kvs (hamt_lookup h)"
  by (rule insert_all_result)

theorem insert_all_correct_witness:
  "\<exists>h'. insert_all demo_h [(2, ''c''), (66, ''d'')] = Some (Inr h') \<and> hamt_inv h' \<and> state h' = state demo_h \<and>
        hamt_lookup h' = fold (\<lambda>(k, v) m. m(k \<mapsto> v)) [(2, ''c''), (66, ''d'')] (hamt_lookup demo_h)"
proof -
  have "fst ` set [(2::nat, ''c''), (66, ''d'')] = {2, 66}" by simp
  with demo_sep have "\<forall>a \<in> fst ` set [(2::nat, ''c''), (66, ''d'')].
      \<forall>b \<in> fst ` set [(2::nat, ''c''), (66, ''d'')] \<union> dom (hamt_lookup demo_h).
      a \<noteq> b \<longrightarrow> (\<exists>n. key_idx (state demo_h) a n \<noteq> key_idx (state demo_h) b n)" by simp
  from insert_all_correct [OF demo_h_inv this] show ?thesis .
qed


lemma node_fmt_total: "wf_node st p t \<Longrightarrow> \<exists>s. node_fmt dk dv t = Inr s"
proof (induction st p t rule: wf_node.induct)
  case (1 st p k v)
  then show ?case by simp
next
  case (2 st p m cs)
  note wf = "2.prems"
  have len: "length cs = set_bits m" by (rule wf_branch_len [OF wf])
  have kids: "\<forall>c \<in> set cs. node_fmt dk dv c = Inr (projr (node_fmt dk dv c))"
  proof
    fix c assume "c \<in> set cs"
    then obtain n where n: "n < length cs" "cs ! n = c" by (auto simp: in_set_conv_nth)
    let ?j = "bm_indices m ! n"
    have jin: "?j \<in> set (bm_indices m)" using n len by (simp add: set_bits_filter del: set_bm_indices)
    have r: "set_bits_under m ?j = n" using n len by (simp add: set_bits_filter rank_of_indices_nth)
    have "wf_node st (p @ [?j]) c" using wf jin r n by (auto split: if_splits)
    with "2.IH" [OF len jin] r n obtain s where "node_fmt dk dv c = Inr s" by auto
    then show "node_fmt dk dv c = Inr (projr (node_fmt dk dv c))" by simp
  qed
  have "set_bits_under m 0 = 0" by (simp add: set_bits_under_filter)
  with fmt_children_rank [OF len kids, of 0] show ?case by simp
qed

text \<open>
  C23: printing a well-formed map with \<open>Debug\<close> never reads past a child array: the
  output is always produced.
\<close>

theorem hamt_debug_total:
  "hamt_inv h \<Longrightarrow> \<exists>s. node_fmt dk dv (root h) = Inr s"
  unfolding hamt_inv_def using node_fmt_total by blast

theorem hamt_debug_total_witness:
  "\<exists>s. node_fmt (fmt_radix 10) (\<lambda>v. v) (root demo_h) = Inr s"
  by (rule hamt_debug_total [OF demo_h_inv])

text \<open>
  C5: overwriting needs no hypothesis on the hash streams: when the key is present,
  \<open>insert\<close> returns its previous value, changes only that leaf's value, and leaves
  every bitmap, every other entry and the free list as they were.
\<close>

theorem hamt_insert_overwrite:
  assumes "hamt_inv h" "hamt_lookup h key = Some v"
  shows "hamt_insert h key value = Some (Inr (Some v, h\<lparr>root := node_upd key value (root h)\<rparr>))"
proof -
  have "ins_walk (state h) key value (hs_skip (length ([]::nat list)) (key_hash (state h) key)) (length ([]::nat list)) (root h) (free_list h) =
      Some (Inr (Some v, node_upd key value (root h), free_list h))"
    using assms by (intro ins_walk_overwrite [of "state h" "[]"]) (simp_all add: hamt_inv_def hamt_lookup_def key_path_def)
  then show ?thesis by (simp add: hamt_insert_def hs_skip_def)
qed

theorem hamt_insert_overwrite_witness:
  "hamt_insert demo_h 65 ''z'' = Some (Inr (Some ''b'', demo_h\<lparr>root := node_upd 65 ''z'' (root demo_h)\<rparr>))"
proof -
  have "hamt_lookup demo_h 65 = Some ''b''" by (simp add: hamt_lookup_def demo_h_def)
  from hamt_insert_overwrite [OF demo_h_inv this] show ?thesis .
qed

text \<open>
  C6: on a well-formed map, \<open>insert\<close> returns exactly when the new key's hash stream
  differs somewhere from that of every other stored key; when some stored key has the
  same stream, the collision loop runs forever.
\<close>

theorem hamt_insert_returns_iff:
  "hamt_inv h \<Longrightarrow> (hamt_insert h key value \<noteq> None) = separable (state h) key (root h)"
  using hamt_insert_diverges hamt_insert_result by fastforce

theorem hamt_insert_returns_iff_witness: "hamt_insert demo_h 2 ''c'' \<noteq> None"
  using hamt_insert_returns_iff [OF demo_h_inv, of 2 "''c''"] demo_h_separable by simp

lemma demo_step1: "hamt_step (hamt_new demo_state) (Op_insert (1::nat) ''a'') =
   Some (Inr (Inserted None, (hamt_new demo_state)\<lparr>root := Leaf 1 ''a''\<rparr>))"
  by (simp add: hamt_insert_def hamt_new_def node_empty_def bm_is_empty_iff node_key_value_def)
lemma demo_step2: "hamt_step ((hamt_new demo_state)\<lparr>root := Leaf 1 ''a''\<rparr>) (Op_insert (65::nat) ''b'') = Some (Inr (Inserted None, demo_h))"
proof -
  have i: "key_idx demo_state (65::nat) 0 = 1" "key_idx demo_state (1::nat) 0 = 1"
    "key_idx demo_state (65::nat) 1 = 1" "key_idx demo_state (1::nat) 1 = 0" by code_simp+
  have sing: "singleton (fl_new () :: (nat, char list) node free_list) node_empty = Inr ([node_empty], fl_new ())"
    by (simp add: singleton_def fl_take_def fl_new_def list_update_same_conv)
  have pr: "pair (fl_new () :: (nat, char list) node free_list) (Leaf 1 ''a'') (Leaf 65 ''b'') =
      Inr ([Leaf 1 ''a'', Leaf 65 ''b''], fl_new ())"
    by (simp add: pair_def fl_take_def fl_new_def list_update_same_conv)
  have d1: "split_loop (hs_skip 1 (key_hash demo_state 65)) (hs_skip 1 (key_hash demo_state 1)) (65::nat) ''b'' 1 ''a''
      node_empty (fl_new ()) = Some (Inr (Branch (BitMap 3) [Leaf 1 ''a'', Leaf 65 ''b''], fl_new ()))"
    using i pr by (subst split_loop.simps) (simp add: split_step_simps bm_empty_def)
  have d0: "split_loop (hs_skip 0 (key_hash demo_state 65)) (hs_skip 0 (key_hash demo_state 1)) (65::nat) ''b'' 1 ''a''
      node_empty (fl_new ()) = Some (Inr (Branch (BitMap 2) [Branch (BitMap 3) [Leaf 1 ''a'', Leaf 65 ''b'']], fl_new ()))"
    using split_loop_single_step [of demo_state 65 0 1, OF _ sing] i d1 by (simp add: bm_empty_def)
  then show ?thesis by (simp add: hamt_insert_def hamt_new_def demo_h_def hs_skip_def)
qed
lemma demo_h_reach: "reach demo_state demo_h"
  by (rule reach_step [OF reach_step [OF reach_new demo_step1] demo_step2])

text \<open>
  C10: every map a program can hold, built by \<open>Hamt::new\<close> and changed by calls to
  \<open>insert\<close> that returned, satisfies the trie invariant and keeps its hash builder.
\<close>

theorem hamt_reachable_inv: "reach st h \<Longrightarrow> hamt_inv h \<and> state h = st"
  by (rule reach_inv)

theorem hamt_reachable_inv_witness: "hamt_inv demo_h \<and> state demo_h = demo_state"
  by (rule hamt_reachable_inv [OF demo_h_reach])

text \<open>
  C9: no call on a reachable map faults: neither \<open>get\<close> nor \<open>insert\<close> reads past a child
  array, panics in the free list or reaches an \<open>unreachable!\<close>; a call either returns a
  result or (an \<open>insert\<close> whose key collides on its whole stream) does not return.
\<close>

theorem hamt_reachable_no_fault: "reach st h \<Longrightarrow> hamt_step h op \<noteq> Some (Inl e)"
proof
  assume "reach st h" "hamt_step h op = Some (Inl e)"
  with reach_inv hamt_step_refines show False by blast
qed

theorem hamt_reachable_no_fault_witness: "\<forall>op e. hamt_step demo_h op \<noteq> Some (Inl e)"
  using hamt_reachable_no_fault [OF demo_h_reach] by blast

text \<open>
  C7: the map simulates the abstract finite map over any sequence of calls: when a
  sequence of \<open>insert\<close> and \<open>get\<close> calls on a reachable map returns, its replies are
  those of the finite-map machine (\<open>insert\<close> the previous value, \<open>get\<close> the value) and
  the final map is reachable and represents the final finite map.
\<close>

theorem hamt_exec_simulates:
  "reach st h \<Longrightarrow> hamt_exec h ops = Some y \<Longrightarrow>
   \<exists>rs h'. y = Inr (rs, h') \<and> reach st h' \<and> (rs, hamt_lookup h') = map_exec (hamt_lookup h) ops"
  using reach_inv hamt_exec_refines reach_exec by metis

theorem hamt_exec_simulates_witness:
  "\<exists>rs h'. (Inr ([Got (Some ''b''), Got None], demo_h) :: error + _) = Inr (rs, h') \<and> reach demo_state h' \<and>
      (rs, hamt_lookup h') = map_exec (hamt_lookup demo_h) [Op_get 65, Op_get 2]"
proof -
  have "hamt_exec demo_h [Op_get 65, Op_get 2] = Some (Inr ([Got (Some ''b''), Got None], demo_h))"
    using hamt_get_lookup [OF demo_h_inv] by (simp add: hamt_lookup_def demo_h_def)
  from hamt_exec_simulates [OF demo_h_reach this] show ?thesis .
qed

text \<open>
  C8: total correctness of a sequence of calls on a reachable map: when every key the
  sequence inserts has a hash stream told apart from those of the other keys inserted
  and of the keys already stored, the run returns, with the replies of the finite-map
  machine, in a reachable map representing its final finite map.
\<close>

theorem hamt_exec_total:
  assumes "reach st h"
    and "\<forall>a \<in> set (inserted_keys ops). \<forall>b \<in> set (inserted_keys ops) \<union> dom (hamt_lookup h). a \<noteq> b \<longrightarrow>
           (\<exists>n. key_idx st a n \<noteq> key_idx st b n)"
  shows "\<exists>rs h'. hamt_exec h ops = Some (Inr (rs, h')) \<and> reach st h' \<and>
                 (rs, hamt_lookup h') = map_exec (hamt_lookup h) ops"
proof -
  from reach_inv [OF assms(1)] have inv: "hamt_inv h" and st: "state h = st" by simp_all
  have "hamt_exec h ops \<noteq> None" using hamt_exec_returns [OF inv, of ops] assms(2) st by simp
  then obtain y where y: "hamt_exec h ops = Some y" by blast
  from hamt_exec_refines [OF inv y] y reach_exec [OF assms(1)] show ?thesis by blast
qed

theorem hamt_exec_total_witness:
  "\<exists>rs h'. hamt_exec demo_h [Op_insert 2 ''c'', Op_get 2, Op_insert 66 ''d''] = Some (Inr (rs, h')) \<and>
     reach demo_state h' \<and>
     (rs, hamt_lookup h') = map_exec (hamt_lookup demo_h) [Op_insert 2 ''c'', Op_get 2, Op_insert 66 ''d'']"
proof -
  have "set (inserted_keys [Op_insert (2::nat) ''c'', Op_get 2, Op_insert 66 ''d'']) = {2, 66}" by auto
  with demo_sep have "\<forall>a \<in> set (inserted_keys [Op_insert (2::nat) ''c'', Op_get 2, Op_insert 66 ''d'']).
      \<forall>b \<in> set (inserted_keys [Op_insert (2::nat) ''c'', Op_get 2, Op_insert 66 ''d'']) \<union> dom (hamt_lookup demo_h).
        a \<noteq> b \<longrightarrow> (\<exists>n. key_idx demo_state a n \<noteq> key_idx demo_state b n)"
    by (simp add: demo_h_def)
  from hamt_exec_total [OF demo_h_reach this] show ?thesis .
qed

text \<open>
  C4: the insert/get round trip on a reachable map: after an \<open>insert\<close> that returned,
  \<open>get\<close> finds the new value under its key and answers every other key as before.
\<close>

theorem hamt_insert_get_roundtrip:
  assumes "reach st h" "hamt_insert h k v = Some (Inr (old, h'))"
  shows "hamt_get h' k = Inr (Some v) \<and> (\<forall>k'. k' \<noteq> k \<longrightarrow> hamt_get h' k' = hamt_get h k')"
proof -
  have inv: "hamt_inv h" using reach_inv [OF assms(1)] by simp
  have "hamt_step h (Op_insert k v) = Some (Inr (Inserted old, h'))" using assms(2) by simp
  from hamt_step_refines [OF inv this] have inv': "hamt_inv h'"
    and lk: "hamt_lookup h' = (hamt_lookup h)(k \<mapsto> v)" by auto
  show ?thesis by (simp add: hamt_get_lookup [OF inv] hamt_get_lookup [OF inv'] lk)
qed

theorem hamt_insert_get_roundtrip_witness:
  "hamt_get demo_h 65 = Inr (Some ''b'') \<and>
   hamt_get demo_h 1 = hamt_get ((hamt_new demo_state)\<lparr>root := Leaf 1 ''a''\<rparr>) 1"
proof -
  have r: "reach demo_state ((hamt_new demo_state)\<lparr>root := Leaf (1::nat) ''a''\<rparr>)"
    by (rule reach_step [OF reach_new demo_step1])
  have "hamt_insert ((hamt_new demo_state)\<lparr>root := Leaf 1 ''a''\<rparr>) (65::nat) ''b'' = Some (Inr (None, demo_h))"
    using demo_step2 by (simp split: option.splits sum.splits prod.splits)
  from hamt_insert_get_roundtrip [OF r this] show ?thesis by simp
qed

theorem hamt_free_list_bounded_witness:
  "fl_count (free_list demo_h) \<le> card (dom (hamt_lookup demo_h))"
  by (rule hamt_free_list_bounded [OF demo_h_reach])

theorem hamt_drop_root_witness:
  "(node_drop (root demo_h) = Inl Null_dereference) = (hamt_lookup demo_h = Map.empty) \<and>
   (\<exists>k v. node_drop (root demo_h) = Inr [(k, v)] \<and> hamt_lookup demo_h k = Some v)"
proof -
  have "hamt_lookup demo_h \<noteq> Map.empty" by (auto simp: hamt_lookup_def demo_h_def fun_eq_iff)
  with hamt_drop_root [OF demo_h_reach] show ?thesis by blast
qed

theorem hamt_depth_bound_witness: "node_height (root demo_h) \<le> 2"
proof -
  have "key_idx demo_state (1::nat) 1 = 0" "key_idx demo_state (65::nat) 1 = 1" by code_simp+
  then have "\<forall>a \<in> dom (hamt_lookup demo_h). \<forall>b \<in> dom (hamt_lookup demo_h). a \<noteq> b \<longrightarrow>
      (\<exists>n < 2. key_idx demo_state a n \<noteq> key_idx demo_state b n)"
    by (auto simp: hamt_lookup_def demo_h_def intro!: exI [of _ 1])
  from hamt_depth_bound [OF demo_h_reach _ this] show ?thesis by simp
qed

text \<open>
  C16: the trie is canonical: any two maps a program can reach under the same hash
  builder, by any histories of calls, that hold the same entries have the same root,
  whatever their free lists hold. \<open>insert\<close> never leaves a shape that depends on the
  order or history of the calls.
\<close>

theorem hamt_canonical:
  "reach st h1 \<Longrightarrow> reach st h2 \<Longrightarrow> hamt_lookup h1 = hamt_lookup h2 \<Longrightarrow> root h1 = root h2"
  using reach_inv hamt_roots_unique by metis

theorem hamt_canonical_witness:
  "\<exists>rs h2. hamt_exec (hamt_new demo_state) [Op_insert 65 ''b'', Op_insert 1 ''a''] = Some (Inr (rs, h2)) \<and>
     root h2 = root demo_h"
proof -
  let ?ops = "[Op_insert (65::nat) ''b'', Op_insert 1 ''a'']"
  have i: "key_idx demo_state (1::nat) 1 = 0" "key_idx demo_state (65::nat) 1 = 1" by code_simp+
  have inv0: "hamt_inv (hamt_new demo_state :: (nat, char list) hamt)" by (rule hamt_new_inv)
  have "hamt_exec (hamt_new demo_state) ?ops \<noteq> None"
    by (rule hamt_exec_returns [OF inv0])
       (use i in \<open>auto simp: hamt_lookup_def hamt_new_def node_empty_def intro!: exI [of _ 1]\<close>)
  then obtain y where y: "hamt_exec (hamt_new demo_state) ?ops = Some y" by blast
  from hamt_exec_refines [OF inv0 y] obtain rs h2 where y2: "y = Inr (rs, h2)"
    and lk: "(rs, hamt_lookup h2) = map_exec (hamt_lookup (hamt_new demo_state)) ?ops" by blast
  have r2: "reach demo_state h2" using reach_exec [OF reach_new] y y2 by blast
  have "hamt_lookup h2 = hamt_lookup demo_h"
    using lk by (auto simp: hamt_lookup_def hamt_new_def node_empty_def demo_h_def fun_eq_iff)
  from hamt_canonical [OF r2 demo_h_reach this] y y2 show ?thesis by blast
qed

text \<open>
  C17: the order of inserts does not matter: two sequences of inserts into a well-formed
  map that produce the same entries (for instance, the same distinct keys in any order)
  both return and build the same trie.
\<close>

theorem insert_order_irrelevant:
  assumes inv: "hamt_inv h"
    and sep1: "\<forall>a \<in> fst ` set kvs1. \<forall>b \<in> fst ` set kvs1 \<union> dom (hamt_lookup h). a \<noteq> b \<longrightarrow>
                 (\<exists>n. key_idx (state h) a n \<noteq> key_idx (state h) b n)"
    and sep2: "\<forall>a \<in> fst ` set kvs2. \<forall>b \<in> fst ` set kvs2 \<union> dom (hamt_lookup h). a \<noteq> b \<longrightarrow>
                 (\<exists>n. key_idx (state h) a n \<noteq> key_idx (state h) b n)"
    and same: "fold (\<lambda>(k, v) m. m(k \<mapsto> v)) kvs1 (hamt_lookup h) = fold (\<lambda>(k, v) m. m(k \<mapsto> v)) kvs2 (hamt_lookup h)"
  shows "\<exists>h1 h2. insert_all h kvs1 = Some (Inr h1) \<and> insert_all h kvs2 = Some (Inr h2) \<and> root h1 = root h2"
proof -
  obtain h1 where r1: "insert_all h kvs1 = Some (Inr h1)" "hamt_inv h1" "state h1 = state h"
    "hamt_lookup h1 = fold (\<lambda>(k, v) m. m(k \<mapsto> v)) kvs1 (hamt_lookup h)"
    using insert_all_result [OF inv sep1] by blast
  obtain h2 where r2: "insert_all h kvs2 = Some (Inr h2)" "hamt_inv h2" "state h2 = state h"
    "hamt_lookup h2 = fold (\<lambda>(k, v) m. m(k \<mapsto> v)) kvs2 (hamt_lookup h)"
    using insert_all_result [OF inv sep2] by blast
  have "state h1 = state h2" using r1(3) r2(3) by simp
  moreover have "hamt_lookup h1 = hamt_lookup h2" using r1(4) r2(4) same by simp
  ultimately have "root h1 = root h2" by (rule hamt_roots_unique [OF r1(2) r2(2)])
  with r1(1) r2(1) show ?thesis by blast
qed

theorem insert_order_irrelevant_witness:
  "\<exists>h1 h2. insert_all demo_h [(2, ''c''), (66, ''d'')] = Some (Inr h1) \<and>
           insert_all demo_h [(66, ''d''), (2, ''c'')] = Some (Inr h2) \<and> root h1 = root h2"
proof -
  have s1: "fst ` set [(2::nat, ''c''), (66, ''d'')] = {2, 66}" and s2: "fst ` set [(66::nat, ''d''), (2, ''c'')] = {2, 66}"
    by auto
  have sep1: "\<forall>a \<in> fst ` set [(2::nat, ''c''), (66, ''d'')].
      \<forall>b \<in> fst ` set [(2::nat, ''c''), (66, ''d'')] \<union> dom (hamt_lookup demo_h).
      a \<noteq> b \<longrightarrow> (\<exists>n. key_idx (state demo_h) a n \<noteq> key_idx (state demo_h) b n)"
    unfolding s1 by (rule demo_sep)
  have sep2: "\<forall>a \<in> fst ` set [(66::nat, ''d''), (2, ''c'')].
      \<forall>b \<in> fst ` set [(66::nat, ''d''), (2, ''c'')] \<union> dom (hamt_lookup demo_h).
      a \<noteq> b \<longrightarrow> (\<exists>n. key_idx (state demo_h) a n \<noteq> key_idx (state demo_h) b n)"
    unfolding s2 by (rule demo_sep)
  have "fold (\<lambda>(k, v) m. m(k \<mapsto> v)) [(2::nat, ''c''), (66, ''d'')] (hamt_lookup demo_h) =
        fold (\<lambda>(k, v) m. m(k \<mapsto> v)) [(66::nat, ''d''), (2, ''c'')] (hamt_lookup demo_h)"
    by (simp add: fun_eq_iff)
  from insert_order_irrelevant [OF demo_h_inv sep1 sep2 this] show ?thesis .
qed

end
